theory Spec2Isabelle
  imports Complex_Main "HOL-Library.Word"
begin

section \<open>Data model of package grpc\_conn\<close>

text \<open>
  The package exists in the repository in several revisions that define the same
  names. The revision made of \<^verbatim>\<open>part_000\<close> (supervisor), \<^verbatim>\<open>part_002\<close> (metrics) and
  \<^verbatim>\<open>part_003\<close> (pool) keeps the source's names here; the definitions taken from
  \<^verbatim>\<open>conn.go\<close> carry the suffix \<open>_conn_go\<close>. A third revision, \<^verbatim>\<open>part_001\<close>, lies
  between the two: its \<open>Start\<close> and the \<^verbatim>\<open>select\<close> statements of its loop are those of
  \<^verbatim>\<open>part_000\<close>, and it sets the is-connected gauge as \<^verbatim>\<open>conn.go\<close> does; it has no
  definitions of its own here.

  A \<^verbatim>\<open>*grpc.ClientConn\<close> is an opaque handle of the transport library: a number
  that identifies it. A \<^verbatim>\<open>context.Context\<close> is identified by a number too; what
  \<^verbatim>\<open>ctx.Err()\<close> returns at a given moment is part of what the environment presents
  at that moment (record \<open>world\<close> below).
\<close>

type_synonym ClientConn = nat
type_synonym Context = nat

datatype ctx_error = Canceled | DeadlineExceeded

text \<open>
  Errors: \<^verbatim>\<open>errors.New(msg)\<close> at a return site, \<^verbatim>\<open>errors.Wrap(err, msg)\<close>, the
  package variable \<^verbatim>\<open>ErrShutdown\<close>, the error of a context, and the error of
  \<^verbatim>\<open>net.SplitHostPort\<close> (by its message).
\<close>

datatype error =
    ErrorsNew string
  | ErrorsWrap error string
  | ErrShutdown
  | ContextErr ctx_error
  | AddrError string

datatype panic = NilPointerDereference

text \<open>
  The dial options and the retry policy are values of other libraries; they are kept
  symbolically. Durations are \<^verbatim>\<open>time.Duration\<close>, a count of nanoseconds.
\<close>

datatype DialOption =
    WithBlock
  | WithTransportCredentialsInsecure
  | WithUnaryInterceptorPrometheus
  | WithStreamInterceptorPrometheus
  | OtherDialOption nat

datatype Retryer = NewExp rat int int | OtherRetryer nat

definition Millisecond :: int where
  "Millisecond = 1000000"

definition Second :: int where
  "Second = 1000000000"

record Options =
  RetryConnect :: Retryer
  DialOptions :: "DialOption list"

record Options_conn_go =
  ConnectTimeout :: int
  RetryConnect_conn_go :: Retryer
  DialOptions_conn_go :: "DialOption list"

definition backoff :: Retryer where
  "backoff = NewExp (2 / 10) (1 * Second) (5 * Second)"

definition DefaultOptions :: Options where
  "DefaultOptions =
     \<lparr>RetryConnect = backoff,
      DialOptions = [WithUnaryInterceptorPrometheus, WithStreamInterceptorPrometheus]\<rparr>"

definition OptionsInsecure :: Options where
  "OptionsInsecure =
     \<lparr>RetryConnect = backoff,
      DialOptions = [WithTransportCredentialsInsecure, WithUnaryInterceptorPrometheus,
        WithStreamInterceptorPrometheus]\<rparr>"

definition DefaultOptions_conn_go :: Options_conn_go where
  "DefaultOptions_conn_go =
     \<lparr>ConnectTimeout = 15 * Second,
      RetryConnect_conn_go = NewExp (2 / 10) (200 * Millisecond) (5 * Second),
      DialOptions_conn_go = [WithBlock, WithUnaryInterceptorPrometheus,
        WithStreamInterceptorPrometheus]\<rparr>"

text \<open>
  The unbuffered channel \<^verbatim>\<open>requests\<close>. Nothing is ever stored in it: at any moment
  it is closed, or a sender is blocked in a send of a value, or neither.
\<close>

datatype 'a chan = NoSender | Sending 'a | Closed

text \<open>
  \<^verbatim>\<open>v, ok := <-ch\<close>: ready with \<open>(v, True)\<close> when a sender is blocked, ready with
  the zero value and \<open>False\<close> when the channel is closed, not ready otherwise.
\<close>

fun recv :: "'a chan \<Rightarrow> ('a option \<times> bool) option" where
  "recv NoSender = None"
| "recv (Sending v) = Some (Some v, True)"
| "recv Closed = Some (None, False)"

text \<open>
  Go's \<^verbatim>\<open>select\<close>: each case is \<open>None\<close> when its communication cannot proceed
  and \<open>Some r\<close> (with what the case's body does) when it can. With no ready case the
  statement blocks (\<open>None\<close>); otherwise one ready case is chosen, by a number the
  scheduler supplies (the runtime chooses pseudo-randomly).
\<close>

definition select :: "nat \<Rightarrow> 'a option list \<Rightarrow> 'a option" where
  "select pick cases =
     (case List.map_filter (\<lambda>c. c) cases of
        [] \<Rightarrow> None
      | r # rs \<Rightarrow> Some ((r # rs) ! (pick mod length (r # rs))))"

record 'o Conn =
  name :: string
  address :: string
  options :: 'o
  once :: bool
  requests :: "ClientConn chan"

subsection \<open>New and the accessors\<close>

text \<open>
  \<^verbatim>\<open>strings.TrimSpace\<close> and \<^verbatim>\<open>net.SplitHostPort\<close> belong to the standard library
  and are parameters. \<open>New\<close> returns \<^verbatim>\<open>(nil, err)\<close> or \<^verbatim>\<open>(c, nil)\<close>; the sum has
  these two shapes, \<open>Inr c\<close> standing for the pointer to the new \<open>c\<close>.
\<close>

definition New ::
  "(string \<Rightarrow> string) \<Rightarrow> string \<Rightarrow> string \<Rightarrow> Options list \<Rightarrow> error + Options Conn" where
  "New TrimSpace nm addr opts =
     (if length nm = 0 then Inl (ErrorsNew ''specify name'')
      else if TrimSpace addr = '''' then Inl (ErrorsNew ''empty address'')
      else if length opts > 1 then Inl (ErrorsNew ''specify 0..1 Options'')
      else Inr \<lparr>name = nm, address = addr,
                options = (if length opts = 0 then DefaultOptions else opts ! 0),
                once = False, requests = NoSender\<rparr>)"

definition New_conn_go ::
  "(string \<Rightarrow> string + string \<times> string) \<Rightarrow> string \<Rightarrow> string \<Rightarrow> Options_conn_go list
     \<Rightarrow> error + Options_conn_go Conn" where
  "New_conn_go SplitHostPort nm addr opts =
     (if length nm = 0 then Inl (ErrorsNew ''specify name'')
      else case SplitHostPort addr of
        Inl err \<Rightarrow> Inl (ErrorsWrap (AddrError err) ''invalid address'')
      | Inr _ \<Rightarrow>
         (if length opts > 1 then Inl (ErrorsNew ''specify 0..1 Options'')
          else Inr \<lparr>name = nm, address = addr,
                    options = (if length opts = 0 then DefaultOptions_conn_go else opts ! 0),
                    once = False, requests = NoSender\<rparr>))"

text \<open>
  A \<^verbatim>\<open>*Conn\<close> is \<open>None\<close> for \<^verbatim>\<open>nil\<close> and \<open>Some c\<close> for a pointer to \<open>c\<close>. The
  accessors read a field through the pointer, which panics on \<^verbatim>\<open>nil\<close>.
\<close>

definition GetName :: "'o Conn option \<Rightarrow> panic + string" where
  "GetName c = (case c of None \<Rightarrow> Inl NilPointerDereference | Some x \<Rightarrow> Inr (name x))"

definition GetAddress :: "'o Conn option \<Rightarrow> panic + string" where
  "GetAddress c = (case c of None \<Rightarrow> Inl NilPointerDereference | Some x \<Rightarrow> Inr (address x))"

definition GetOptions :: "'o Conn option \<Rightarrow> panic + 'o" where
  "GetOptions c = (case c of None \<Rightarrow> Inl NilPointerDereference | Some x \<Rightarrow> Inr (options x))"

subsection \<open>Pool\<close>

record 'o Pool =
  conns :: "string \<rightharpoonup> 'o Conn option"

text \<open>
  \<open>NewPool\<close>: the loop over \<^verbatim>\<open>xs\<close> stores each pointer under its name; calling
  \<^verbatim>\<open>x.GetName()\<close> on a \<^verbatim>\<open>nil\<close> element panics. The result is the pair
  \<^verbatim>\<open>(p, nil)\<close> of the pool and the error.
\<close>

fun NewPool_loop :: "'o Pool \<Rightarrow> 'o Conn option list \<Rightarrow> panic + 'o Pool" where
  "NewPool_loop p [] = Inr p"
| "NewPool_loop p (x # xs) =
     (case GetName x of
        Inl e \<Rightarrow> Inl e
      | Inr n \<Rightarrow> NewPool_loop (p\<lparr>conns := (conns p)(n \<mapsto> x)\<rparr>) xs)"

definition NewPool :: "'o Conn option list \<Rightarrow> panic + ('o Pool option \<times> error option)" where
  "NewPool xs =
     (case NewPool_loop \<lparr>conns = Map.empty\<rparr> xs of
        Inl e \<Rightarrow> Inl e
      | Inr p \<Rightarrow> Inr (Some p, None))"

text \<open>
  \<^verbatim>\<open>c, found := p.conns[name]\<close>: the zero value \<^verbatim>\<open>nil\<close> and \<open>False\<close> for a
  missing key.
\<close>

definition Get :: "'o Pool \<Rightarrow> string \<Rightarrow> 'o Conn option \<times> bool" where
  "Get p n = (case conns p n of None \<Rightarrow> (None, False) | Some c \<Rightarrow> (c, True))"

subsection \<open>Metrics\<close>

text \<open>
  One series of a metric vector, the one labelled with the name and the address of the
  \<open>Conn\<close>: \<open>None\<close> until the series is created, then its value. The values written
  by this package are whole numbers (counts, \<open>1\<close>, the numbers of the connectivity
  states); the sink keeps them as \<^verbatim>\<open>float64\<close>, which holds them exactly.
\<close>

type_synonym metric = "int option"

definition WithLabelValues :: "metric \<Rightarrow> metric" where
  "WithLabelValues m = (case m of None \<Rightarrow> Some 0 | Some v \<Rightarrow> Some v)"

definition Inc :: "metric \<Rightarrow> metric" where
  "Inc m = (case WithLabelValues m of None \<Rightarrow> None | Some v \<Rightarrow> Some (v + 1))"

definition Set_gauge :: "int \<Rightarrow> metric \<Rightarrow> metric" where
  "Set_gauge v m = Some v"

subsection \<open>The environment and the state of one supervisor\<close>

text \<open>
  What the environment presents at one scheduling step: the error of every context at
  that moment (\<open>None\<close> while the context is not done), what a dial made now returns,
  whether the retry timer has fired, whether some caller is blocked receiving from
  \<^verbatim>\<open>requests\<close>, and the choice the runtime makes in a \<^verbatim>\<open>select\<close> with several
  ready cases.
\<close>

record world =
  ctx_err :: "Context \<Rightarrow> ctx_error option"
  dial_result :: "string + ClientConn"
  timer_fired :: bool
  receiver :: bool
  pick :: nat

text \<open>
  Where the goroutine of \<^verbatim>\<open>loop\<close> stands: not created, created and not yet run,
  blocked in the \<^verbatim>\<open>select\<close> of the retry wait, blocked in the \<^verbatim>\<open>select\<close> that
  offers the handle, or returned.
\<close>

datatype pc = NotStarted | Entry | Retry | Serve ClientConn | Exited

text \<open>
  The state: the \<open>Conn\<close>, the locals of \<^verbatim>\<open>loop\<close> (\<open>loop_ctx\<close>, \<open>attempt\<close>, a Go
  \<^verbatim>\<open>int\<close> of 64 bits), the arguments of the calls \<^verbatim>\<open>RetryConnect.Next(attempt)\<close>
  made so far, the handles with a pending \<^verbatim>\<open>defer conn.Close()\<close>, the handles closed,
  the handles a \<^verbatim>\<open>watchConnectionState\<close> goroutine was started for, the number of
  calls of \<^verbatim>\<open>c.loop\<close>, whether \<^verbatim>\<open>cancel()\<close> of the dial context of
  \<^verbatim>\<open>conn.go\<close> has been called, and the metrics.
\<close>

record 'o sys =
  conn :: "'o Conn"
  loop_ctx :: "Context option"
  pc :: pc
  attempt :: "64 word"
  next_calls :: "64 word list"
  deferred :: "ClientConn list"
  closed_conns :: "ClientConn list"
  watchers :: "ClientConn list"
  loops :: nat
  dial_ctx_cancelled :: bool
  metric_grpc_conns :: metric
  metric_grpc_conns_err :: metric
  metric_grpc_is_connected :: metric

definition init_sys :: "'o Conn \<Rightarrow> 'o sys" where
  "init_sys c =
     \<lparr>conn = c, loop_ctx = None, pc = NotStarted, attempt = 0, next_calls = [],
      deferred = [], closed_conns = [], watchers = [], loops = 0,
      dial_ctx_cancelled = False, metric_grpc_conns = None, metric_grpc_conns_err = None,
      metric_grpc_is_connected = None\<rparr>"

definition Done :: "world \<Rightarrow> Context option \<Rightarrow> bool" where
  "Done w ctx = (case ctx of None \<Rightarrow> False | Some x \<Rightarrow> ctx_err w x \<noteq> None)"

datatype select_case = CtxDone | TimerFired | Sent

subsection \<open>GetConnection\<close>

text \<open>
  The method is the same in every revision. The result is the pair the Go function
  returns, or \<open>None\<close> while the \<^verbatim>\<open>select\<close> blocks.
\<close>

definition GetConnection ::
  "world \<Rightarrow> Context \<Rightarrow> 'o Conn \<Rightarrow> (ClientConn option \<times> error option) option" where
  "GetConnection w ctx c =
     select (pick w)
       [case ctx_err w ctx of
          None \<Rightarrow> None
        | Some e \<Rightarrow> Some (None, Some (ContextErr e)),
        case recv (requests c) of
          None \<Rightarrow> None
        | Some (cc, ok) \<Rightarrow> Some (if \<not> ok then (None, Some ErrShutdown) else (cc, None))]"

subsection \<open>The supervisor of part\_000: Start and loop\<close>

text \<open>
  \<open>loop_return\<close>: the deferred calls run when \<^verbatim>\<open>loop\<close> returns, last deferred
  first: \<^verbatim>\<open>conn.Close()\<close> for the dialled handle, then \<^verbatim>\<open>close(c.requests)\<close>.
\<close>

definition loop_return :: "Options sys \<Rightarrow> Options sys" where
  "loop_return s =
     s\<lparr>closed_conns := closed_conns s @ deferred s, deferred := [],
       conn := (conn s)\<lparr>requests := Closed\<rparr>, pc := Exited\<rparr>"

text \<open>
  \<open>dial\<close>: one pass through the body of the outer \<^verbatim>\<open>for\<close>, from its top to the
  \<^verbatim>\<open>select\<close> it blocks in next.
\<close>

definition dial :: "world \<Rightarrow> Options sys \<Rightarrow> Options sys" where
  "dial w s =
     (let s1 = s\<lparr>metric_grpc_conns := Inc (metric_grpc_conns s)\<rparr> in
      case dial_result w of
        Inl err \<Rightarrow>
          s1\<lparr>metric_grpc_conns_err := Inc (metric_grpc_conns_err s1),
             next_calls := next_calls s1 @ [attempt s1],
             pc := Retry\<rparr>
      | Inr cc \<Rightarrow>
          s1\<lparr>deferred := cc # deferred s1,
             watchers := watchers s1 @ [cc],
             conn := (conn s1)\<lparr>requests := Sending cc\<rparr>,
             pc := Serve cc\<rparr>)"

definition loop_step :: "world \<Rightarrow> Options sys \<Rightarrow> Options sys" where
  "loop_step w s =
     (case pc s of
        NotStarted \<Rightarrow> s
      | Entry \<Rightarrow>
          dial w (s\<lparr>metric_grpc_conns := WithLabelValues (metric_grpc_conns s),
                    metric_grpc_conns_err := WithLabelValues (metric_grpc_conns_err s)\<rparr>)
      | Retry \<Rightarrow>
          (case select (pick w)
                  [if Done w (loop_ctx s) then Some CtxDone else None,
                   if timer_fired w then Some TimerFired else None] of
             None \<Rightarrow> s
           | Some CtxDone \<Rightarrow> loop_return s
           | Some _ \<Rightarrow> dial w (s\<lparr>attempt := attempt s + 1\<rparr>))
      | Serve cc \<Rightarrow>
          (case select (pick w)
                  [if Done w (loop_ctx s) then Some CtxDone else None,
                   if receiver w then Some Sent else None] of
             None \<Rightarrow> s
           | Some CtxDone \<Rightarrow> loop_return s
           | Some _ \<Rightarrow> s)
      | Exited \<Rightarrow> s)"

text \<open>
  \<^verbatim>\<open>c.once.Do(func() { go c.loop(ctx) })\<close>: the first call creates the goroutine and
  returns; \<open>loops\<close> counts the calls of \<^verbatim>\<open>c.loop\<close>.
\<close>

definition Start :: "Context \<Rightarrow> Options sys \<Rightarrow> Options sys" where
  "Start ctx s =
     (if once (conn s) then s
      else s\<lparr>conn := (conn s)\<lparr>once := True\<rparr>, loop_ctx := Some ctx, pc := Entry,
             loops := loops s + 1\<rparr>)"

text \<open>A history of the supervisor: calls of \<open>Start\<close> and steps of the loop's goroutine.\<close>

datatype event = CallStart Context | Sched world

fun sys_step :: "event \<Rightarrow> Options sys \<Rightarrow> Options sys" where
  "sys_step (CallStart ctx) s = Start ctx s"
| "sys_step (Sched w) s = loop_step w s"

definition run :: "event list \<Rightarrow> Options sys \<Rightarrow> Options sys" where
  "run evs s = fold sys_step evs s"

text \<open>The moments at which a history schedules the loop's goroutine, in order.\<close>

fun sched_worlds :: "event list \<Rightarrow> world list" where
  "sched_worlds [] = []"
| "sched_worlds (CallStart ctx # evs) = sched_worlds evs"
| "sched_worlds (Sched w # evs) = w # sched_worlds evs"

text \<open>
  What holds of every state a history reaches from a new supervisor: \<^verbatim>\<open>requests\<close> has a
  blocked sender exactly in the serve phase, the sender offers the one handle that was
  dialled, the channel is closed exactly when the loop has returned, and the loop has been
  created exactly when \<open>once\<close> is set.
\<close>

definition loop_inv :: "Options sys \<Rightarrow> bool" where
  "loop_inv s =
     ((pc s = NotStarted) = (\<not> once (conn s)) \<and>
      (case pc s of
         Serve cc \<Rightarrow> requests (conn s) = Sending cc \<and> watchers s = [cc]
       | Exited \<Rightarrow> requests (conn s) = Closed
       | _ \<Rightarrow> requests (conn s) = NoSender \<and> watchers s = []))"

subsection \<open>The supervisor of conn.go: Start and loop\<close>

text \<open>\<^verbatim>\<open>conn.go\<close> defers \<^verbatim>\<open>close(c.requests)\<close> only.\<close>

definition loop_return_conn_go :: "Options_conn_go sys \<Rightarrow> Options_conn_go sys" where
  "loop_return_conn_go s = s\<lparr>conn := (conn s)\<lparr>requests := Closed\<rparr>, pc := Exited\<rparr>"

text \<open>
  The body of the outer \<^verbatim>\<open>for\<close>: \<^verbatim>\<open>ctx, cancel := context.WithTimeout(appCtx, ...)\<close>
  makes a new dial context, and \<^verbatim>\<open>cancel()\<close> is called as soon as the dial has
  returned.
\<close>

definition dial_conn_go :: "world \<Rightarrow> Options_conn_go sys \<Rightarrow> Options_conn_go sys" where
  "dial_conn_go w s =
     (let s1 = s\<lparr>metric_grpc_conns := Inc (metric_grpc_conns s), dial_ctx_cancelled := False\<rparr>;
          s2 = s1\<lparr>dial_ctx_cancelled := True\<rparr> in
      case dial_result w of
        Inl err \<Rightarrow>
          s2\<lparr>metric_grpc_conns_err := Inc (metric_grpc_conns_err s2),
             next_calls := next_calls s2 @ [attempt s2],
             pc := Retry\<rparr>
      | Inr cc \<Rightarrow>
          s2\<lparr>attempt := 0,
             metric_grpc_is_connected := Set_gauge 1 (metric_grpc_is_connected s2),
             conn := (conn s2)\<lparr>requests := Sending cc\<rparr>,
             pc := Serve cc\<rparr>)"

text \<open>
  The retry wait selects on \<^verbatim>\<open>appCtx.Done()\<close>; the serve phase selects on
  \<^verbatim>\<open>ctx.Done()\<close>, the dial context, which is done once it is cancelled or its parent
  \<^verbatim>\<open>appCtx\<close> is done (or its deadline has passed, which is left out: no state of
  the serve phase is reached before \<^verbatim>\<open>cancel()\<close>).
\<close>

definition loop_step_conn_go :: "world \<Rightarrow> Options_conn_go sys \<Rightarrow> Options_conn_go sys" where
  "loop_step_conn_go w s =
     (case pc s of
        NotStarted \<Rightarrow> s
      | Entry \<Rightarrow>
          dial_conn_go w
            (s\<lparr>metric_grpc_is_connected := WithLabelValues (metric_grpc_is_connected s),
               metric_grpc_conns := WithLabelValues (metric_grpc_conns s),
               metric_grpc_conns_err := WithLabelValues (metric_grpc_conns_err s)\<rparr>)
      | Retry \<Rightarrow>
          (case select (pick w)
                  [if Done w (loop_ctx s) then Some CtxDone else None,
                   if timer_fired w then Some TimerFired else None] of
             None \<Rightarrow> s
           | Some CtxDone \<Rightarrow> loop_return_conn_go s
           | Some _ \<Rightarrow> dial_conn_go w (s\<lparr>attempt := attempt s + 1\<rparr>))
      | Serve cc \<Rightarrow>
          (case select (pick w)
                  [if dial_ctx_cancelled s \<or> Done w (loop_ctx s) then Some CtxDone else None,
                   if receiver w then Some Sent else None] of
             None \<Rightarrow> s
           | Some CtxDone \<Rightarrow> loop_return_conn_go s
           | Some _ \<Rightarrow> s)
      | Exited \<Rightarrow> s)"

text \<open>
  \<^verbatim>\<open>c.loop(appCtx)\<close> run to its return on the calling goroutine, against the
  environment \<open>ws 0\<close>, \<open>ws 1\<close>, ... of its successive steps; \<open>None\<close> when it never
  returns.
\<close>

partial_function (option) loop_conn_go ::
  "(nat \<Rightarrow> world) \<Rightarrow> Options_conn_go sys \<Rightarrow> Options_conn_go sys option" where
  "loop_conn_go ws s =
     (if pc s = Exited then Some s
      else loop_conn_go (\<lambda>n. ws (Suc n)) (loop_step_conn_go (ws 0) s))"

declare loop_conn_go.simps [code]

text \<open>The first steps of that run, against a finite list of moments.\<close>

definition steps_conn_go ::
  "world list \<Rightarrow> Options_conn_go sys \<Rightarrow> Options_conn_go sys" where
  "steps_conn_go ws s = fold loop_step_conn_go ws s"

text \<open>
  \<^verbatim>\<open>c.once.Do(func() { c.loop(ctx) })\<close>: the first call runs the loop itself and
  returns when the loop has; \<^verbatim>\<open>sync.Once\<close> marks itself done after that.
\<close>

definition Start_conn_go ::
  "Context \<Rightarrow> (nat \<Rightarrow> world) \<Rightarrow> Options_conn_go sys \<Rightarrow> Options_conn_go sys option" where
  "Start_conn_go ctx ws s =
     (if once (conn s) then Some s
      else case loop_conn_go ws (s\<lparr>loop_ctx := Some ctx, pc := Entry, loops := loops s + 1\<rparr>) of
             None \<Rightarrow> None
           | Some s' \<Rightarrow> Some (s'\<lparr>conn := (conn s')\<lparr>once := True\<rparr>\<rparr>))"

text \<open>
  Calls of \<open>Start\<close> of conn.go made one after the other on one goroutine, each with its
  context and the environment its loop would meet; a call that never returns leaves no
  later call.
\<close>

fun Starts_conn_go ::
  "(Context \<times> (nat \<Rightarrow> world)) list \<Rightarrow> Options_conn_go sys \<Rightarrow> Options_conn_go sys option" where
  "Starts_conn_go [] s = Some s"
| "Starts_conn_go ((ctx, ws) # cs) s =
     (case Start_conn_go ctx ws s of None \<Rightarrow> None | Some s' \<Rightarrow> Starts_conn_go cs s')"

text \<open>
  What holds of every state the loop of conn.go reaches from its entry: the attempts
  counter is not negative, past the entry a dial has been counted, and when the loop has
  returned \<^verbatim>\<open>requests\<close> is closed.
\<close>

definition loop_inv_conn_go :: "Options_conn_go sys \<Rightarrow> bool" where
  "loop_inv_conn_go s =
     (case pc s of
        NotStarted \<Rightarrow> False
      | Entry \<Rightarrow> (case metric_grpc_conns s of None \<Rightarrow> True | Some n \<Rightarrow> 0 \<le> n)
      | Exited \<Rightarrow>
          requests (conn s) = Closed \<and>
          (case metric_grpc_conns s of None \<Rightarrow> False | Some n \<Rightarrow> 1 \<le> n)
      | _ \<Rightarrow> (case metric_grpc_conns s of None \<Rightarrow> False | Some n \<Rightarrow> 1 \<le> n))"

subsection \<open>The connectivity state watcher\<close>

text \<open>
  \<^verbatim>\<open>connectivity.State\<close> and its numbers, as the help text of
  \<^verbatim>\<open>metric_conn_state\<close> lists them.
\<close>

datatype State = Idle | Connecting | Ready | TransientFailure | Shutdown

fun float64 :: "State \<Rightarrow> int" where
  "float64 Idle = 0"
| "float64 Connecting = 1"
| "float64 Ready = 2"
| "float64 TransientFailure = 3"
| "float64 Shutdown = 4"

text \<open>
  What the handle answers to the watcher, call after call: \<open>WaitTrue st\<close> when
  \<^verbatim>\<open>WaitForStateChange\<close> returns true and the \<^verbatim>\<open>GetState\<close> after it returns
  \<open>st\<close>; \<open>WaitFalse\<close> when \<^verbatim>\<open>WaitForStateChange\<close> returns false. When the answers
  run out the watcher is blocked in \<^verbatim>\<open>WaitForStateChange\<close>.
\<close>

datatype answer = WaitTrue State | WaitFalse

record watcher =
  state :: State
  waited_from :: "State list"
  sets :: "int list"
  returned :: bool

text \<open>
  The \<^verbatim>\<open>for\<close> loop of \<^verbatim>\<open>watchConnectionState\<close>; \<open>waited_from\<close> lists the second
  argument of each call of \<^verbatim>\<open>WaitForStateChange\<close>, \<open>sets\<close> the values given to
  \<^verbatim>\<open>m.Set\<close>, in order.
\<close>

fun watch_loop :: "watcher \<Rightarrow> answer list \<Rightarrow> watcher" where
  "watch_loop v [] = v"
| "watch_loop v (WaitFalse # as) = v\<lparr>waited_from := waited_from v @ [state v], returned := True\<rparr>"
| "watch_loop v (WaitTrue st # as) =
     watch_loop (v\<lparr>state := st, waited_from := waited_from v @ [state v],
                   sets := sets v @ [float64 st]\<rparr>) as"

definition watchConnectionState :: "State \<Rightarrow> answer list \<Rightarrow> watcher" where
  "watchConnectionState st0 as =
     watch_loop \<lparr>state = st0, waited_from = [], sets = [float64 st0], returned = False\<rparr> as"

subsection \<open>Concrete inputs\<close>

definition conn_a :: "Options Conn" where
  "conn_a = \<lparr>name = ''a'', address = ''host-a:1'', options = DefaultOptions, once = False,
     requests = NoSender\<rparr>"

definition conn_a2 :: "Options Conn" where
  "conn_a2 = \<lparr>name = ''a'', address = ''host-b:2'', options = OptionsInsecure, once = False,
     requests = NoSender\<rparr>"

definition conn_go_a :: "Options_conn_go Conn" where
  "conn_go_a = \<lparr>name = ''a'', address = ''host-a:1'', options = DefaultOptions_conn_go,
     once = False, requests = NoSender\<rparr>"

text \<open>
  Three moments of the environment. No context is done in the first two; a dial succeeds
  with handle 7 in the first and fails in the second; the retry timer has fired in both;
  no caller waits. In the third every context has been cancelled.
\<close>

definition w_dial_ok :: world where
  "w_dial_ok = \<lparr>ctx_err = (\<lambda>_. None), dial_result = Inr 7, timer_fired = True,
     receiver = False, pick = 0\<rparr>"

definition w_dial_fail :: world where
  "w_dial_fail = \<lparr>ctx_err = (\<lambda>_. None), dial_result = Inl ''connection refused'',
     timer_fired = True, receiver = False, pick = 0\<rparr>"

definition w_cancelled :: world where
  "w_cancelled = \<lparr>ctx_err = (\<lambda>_. Some Canceled), dial_result = Inl ''context canceled'',
     timer_fired = False, receiver = False, pick = 0\<rparr>"

text \<open>
  Stand-ins for the two library functions, for plain inputs only: \<open>trim_blanks\<close> trims
  the blank character at both ends (not tabs, newlines or other white space), and
  \<open>split_last_colon\<close> splits at the last colon (without the library's checks of further
  colons and of brackets). They are used where they agree with the library.
\<close>

definition trim_blanks :: "string \<Rightarrow> string" where
  "trim_blanks s =
     rev (dropWhile (\<lambda>c. c = CHR '' '') (rev (dropWhile (\<lambda>c. c = CHR '' '') s)))"

definition split_last_colon :: "string \<Rightarrow> string + string \<times> string" where
  "split_last_colon s =
     (if CHR '':'' \<in> set s
      then Inr (rev (tl (dropWhile (\<lambda>c. c \<noteq> CHR '':'') (rev s))),
                rev (takeWhile (\<lambda>c. c \<noteq> CHR '':'') (rev s)))
      else Inl ''missing port in address'')"

section \<open>Properties\<close>

subsection \<open>New\<close>

text \<open>
  Claim C4. \<open>New\<close> returns an error exactly when the name is empty, the address fails
  the validation of the revision (\<^verbatim>\<open>strings.TrimSpace(address) == ""\<close> in part\_000, an
  error of \<^verbatim>\<open>net.SplitHostPort(address)\<close> in conn.go), or more than one \<open>Options\<close> value
  is given; on success the \<open>Conn\<close> carries the given name and address, as \<open>GetName\<close>
  and \<open>GetAddress\<close> return them, and \<open>GetOptions\<close> returns the given \<open>Options\<close>, or the
  package's \<open>DefaultOptions\<close> when none was given.
\<close>

theorem New_validates:
  "(isl (New TrimSpace nm addr opts) \<longleftrightarrow> nm = [] \<or> TrimSpace addr = [] \<or> 1 < length opts) \<and>
   (isl (New_conn_go SplitHostPort nm addr opts') \<longleftrightarrow>
      nm = [] \<or> isl (SplitHostPort addr) \<or> 1 < length opts') \<and>
   (\<forall>c. New TrimSpace nm addr opts = Inr c \<longrightarrow>
      GetName (Some c) = Inr nm \<and> GetAddress (Some c) = Inr addr \<and>
      GetOptions (Some c) = Inr (case opts of [] \<Rightarrow> DefaultOptions | x # _ \<Rightarrow> x)) \<and>
   (\<forall>c. New_conn_go SplitHostPort nm addr opts' = Inr c \<longrightarrow>
      GetName (Some c) = Inr nm \<and> GetAddress (Some c) = Inr addr \<and>
      GetOptions (Some c) = Inr (case opts' of [] \<Rightarrow> DefaultOptions_conn_go | x # _ \<Rightarrow> x))"
  by (auto simp: New_def New_conn_go_def GetName_def GetAddress_def GetOptions_def
      split: sum.splits list.splits if_splits)

theorem New_validates_witness:
  "(\<exists>c. New trim_blanks ''svc'' ''localhost:50051'' [OptionsInsecure] = Inr c \<and>
        GetName (Some c) = Inr ''svc'' \<and> GetAddress (Some c) = Inr ''localhost:50051'' \<and>
        GetOptions (Some c) = Inr OptionsInsecure) \<and>
   (\<exists>c. New_conn_go split_last_colon ''svc'' ''localhost:50051'' [] = Inr c \<and>
        GetName (Some c) = Inr ''svc'' \<and> GetAddress (Some c) = Inr ''localhost:50051'' \<and>
        GetOptions (Some c) = Inr DefaultOptions_conn_go) \<and>
   isl (New trim_blanks ''svc'' ''  '' []) \<and>
   isl (New_conn_go split_last_colon ''svc'' ''localhost'' [])"
proof -
  have a: "New trim_blanks ''svc'' ''localhost:50051'' [OptionsInsecure] =
      Inr \<lparr>name = ''svc'', address = ''localhost:50051'', options = OptionsInsecure,
           once = False, requests = NoSender\<rparr>"
    by (simp add: New_def trim_blanks_def)
  have b: "New_conn_go split_last_colon ''svc'' ''localhost:50051'' [] =
      Inr \<lparr>name = ''svc'', address = ''localhost:50051'', options = DefaultOptions_conn_go,
           once = False, requests = NoSender\<rparr>"
    by (simp add: New_conn_go_def split_last_colon_def)
  have c: "trim_blanks ''  '' = []" by (simp add: trim_blanks_def)
  have d: "isl (split_last_colon ''localhost'')" by (simp add: split_last_colon_def)
  show ?thesis
    using New_validates[of trim_blanks "''svc''" "''localhost:50051''" "[OptionsInsecure]"
        split_last_colon "[]"]
      New_validates[of trim_blanks "''svc''" "''  ''" "[]" split_last_colon "[]"]
      New_validates[of trim_blanks "''svc''" "''localhost''" "[]" split_last_colon "[]"]
      a b c d
    by simp
qed

subsection \<open>Pool\<close>

lemma NewPool_loop_ok:
  "list_all (\<lambda>x. x \<noteq> None) xs \<Longrightarrow>
   \<exists>p'. NewPool_loop p xs = Inr p' \<and>
     (\<forall>n. conns p' n =
        (case filter (\<lambda>x. GetName x = Inr n) xs of
           [] \<Rightarrow> conns p n
         | y # ys \<Rightarrow> Some (last (y # ys))))"
proof (induction xs arbitrary: p)
  case Nil
  then show ?case by simp
next
  case (Cons x xs)
  then obtain c where x: "x = Some c" by auto
  from Cons.prems have "list_all (\<lambda>x. x \<noteq> None) xs" by simp
  from Cons.IH[OF this, of "p\<lparr>conns := (conns p)(name c \<mapsto> x)\<rparr>"]
  obtain p' where p': "NewPool_loop (p\<lparr>conns := (conns p)(name c \<mapsto> x)\<rparr>) xs = Inr p'"
    and l: "\<And>n. conns p' n =
        (case filter (\<lambda>x. GetName x = Inr n) xs of
           [] \<Rightarrow> conns (p\<lparr>conns := (conns p)(name c \<mapsto> x)\<rparr>) n
         | y # ys \<Rightarrow> Some (last (y # ys)))"
    by blast
  show ?case using p' l x by (auto simp: GetName_def split: list.splits)
qed

text \<open>A \<^verbatim>\<open>nil\<close> element makes the loop of \<open>NewPool\<close> panic.\<close>

lemma NewPool_loop_nil:
  "None \<in> set xs \<Longrightarrow> NewPool_loop p xs = Inl NilPointerDereference"
  by (induction xs arbitrary: p) (auto simp: GetName_def split: option.splits)

text \<open>
  Claim C10. \<open>NewPool\<close> never fails: for every list of Conns (pointers to Conns, none of
  them \<^verbatim>\<open>nil\<close>), the empty list and lists with repeated names included, it returns a
  pool that is not \<^verbatim>\<open>nil\<close> and the error \<^verbatim>\<open>nil\<close>; and whatever the list, a call
  that returns, returns such a pair, never an error.
\<close>

theorem NewPool_never_fails:
  "(list_all (\<lambda>x. x \<noteq> None) xs \<longrightarrow> (\<exists>p. NewPool xs = Inr (Some p, None))) \<and>
   (\<forall>r. NewPool xs = Inr r \<longrightarrow> (\<exists>p. r = (Some p, None)))"
proof
  show "list_all (\<lambda>x. x \<noteq> None) xs \<longrightarrow> (\<exists>p. NewPool xs = Inr (Some p, None))"
    using NewPool_loop_ok[of xs "\<lparr>conns = Map.empty\<rparr>"] by (auto simp: NewPool_def)
  show "\<forall>r. NewPool xs = Inr r \<longrightarrow> (\<exists>p. r = (Some p, None))"
    by (auto simp: NewPool_def split: sum.splits)
qed

theorem NewPool_never_fails_witness:
  "list_all (\<lambda>x. x \<noteq> None) [Some conn_a, Some conn_a2] \<and>
   (\<exists>p. NewPool [Some conn_a, Some conn_a2] = Inr (Some p, None)) \<and>
   (\<exists>p. NewPool ([] :: Options Conn option list) = Inr (Some p, None))"
proof -
  have h: "list_all (\<lambda>x. x \<noteq> None) [Some conn_a, Some conn_a2]"
    "list_all (\<lambda>x. x \<noteq> None) ([] :: Options Conn option list)"
    by simp_all
  from NewPool_never_fails[of "[Some conn_a, Some conn_a2]", THEN conjunct1] h(1)
  have 1: "\<exists>p. NewPool [Some conn_a, Some conn_a2] = Inr (Some p, None)" by blast
  from NewPool_never_fails[of "[] :: Options Conn option list", THEN conjunct1] h(2)
  have 2: "\<exists>p. NewPool ([] :: Options Conn option list) = Inr (Some p, None)" by blast
  from h(1) 1 2 show ?thesis by blast
qed

text \<open>
  Claim C8. For a pool built from a list of Conns, \<open>Get\<close> answers \<open>found = False\<close> for a
  name that no Conn of the list carries, and for a name that some Conn carries it returns
  the last Conn of the list with that name, with \<open>found = True\<close>.
\<close>

theorem Pool_Get_lookup:
  assumes "list_all (\<lambda>x. x \<noteq> None) xs" and "NewPool xs = Inr (Some p, e)"
  shows "Get p n =
     (if Inr n \<in> GetName ` set xs
      then (last (filter (\<lambda>x. GetName x = Inr n) xs), True)
      else (None, False))"
proof -
  from NewPool_loop_ok[OF assms(1), of "\<lparr>conns = Map.empty\<rparr>"] assms(2)
  have l: "\<And>n. conns p n =
      (case filter (\<lambda>x. GetName x = Inr n) xs of
         [] \<Rightarrow> None
       | y # ys \<Rightarrow> Some (last (y # ys)))"
    by (auto simp: NewPool_def split: list.splits)
  show ?thesis
  proof (cases "filter (\<lambda>x. GetName x = Inr n) xs")
    case Nil
    then have "Inr n \<notin> GetName ` set xs" by (auto simp: filter_empty_conv)
    with Nil l[of n] show ?thesis by (simp add: Get_def)
  next
    case (Cons y ys)
    then have "y \<in> set (filter (\<lambda>x. GetName x = Inr n) xs)" by simp
    then have "Inr n \<in> GetName ` set xs" by force
    with Cons l[of n] show ?thesis by (simp add: Get_def)
  qed
qed

theorem Pool_Get_lookup_witness:
  "list_all (\<lambda>x. x \<noteq> None) [Some conn_a, Some conn_a2] \<and>
   (\<exists>p. NewPool [Some conn_a, Some conn_a2] = Inr (Some p, None) \<and>
        Get p ''a'' = (Some conn_a2, True) \<and> Get p ''b'' = (None, False))"
proof -
  have h: "list_all (\<lambda>x. x \<noteq> None) [Some conn_a, Some conn_a2]" by simp
  have n: "NewPool [Some conn_a, Some conn_a2] =
      Inr (Some \<lparr>conns = [''a'' \<mapsto> Some conn_a2]\<rparr>, None)"
    by (simp add: NewPool_def GetName_def conn_a_def conn_a2_def)
  show ?thesis
    using h Pool_Get_lookup[OF h n, of "''a''"] Pool_Get_lookup[OF h n, of "''b''"] n
    by (simp add: GetName_def conn_a_def conn_a2_def)
qed

subsection \<open>select\<close>

lemma select_None [simp]: "select n [None, None] = None"
  by (simp add: select_def List.map_filter_simps)

lemma select_fst [simp]: "select n [Some a, None] = Some a"
  by (simp add: select_def List.map_filter_simps)

lemma select_snd [simp]: "select n [None, Some b] = Some b"
  by (simp add: select_def List.map_filter_simps)

lemma select_both: "select n [Some a, Some b] = Some (if even n then a else b)"
proof -
  have "n mod Suc (Suc 0) = (if even n then 0 else 1)" by presburger
  then show ?thesis by (simp add: select_def List.map_filter_simps)
qed

subsection \<open>GetConnection\<close>

text \<open>
  Claim C2. A call of \<open>GetConnection\<close> that returns, returns one of three results and no
  other: the handle the loop offers (with a \<^verbatim>\<open>nil\<close> error), the error of the caller's
  own context when that context is done, or \<open>ErrShutdown\<close> when \<^verbatim>\<open>requests\<close> has been
  closed. It blocks exactly while the context is not done and nothing is offered; with
  only one of the three conditions true the result is the one of that condition.
\<close>

theorem GetConnection_outcomes:
  "(GetConnection w ctx c = Some r \<longrightarrow>
      (\<exists>cc. r = (Some cc, None) \<and> requests c = Sending cc) \<or>
      (\<exists>e. r = (None, Some (ContextErr e)) \<and> ctx_err w ctx = Some e) \<or>
      (r = (None, Some ErrShutdown) \<and> requests c = Closed)) \<and>
   (GetConnection w ctx c = None \<longleftrightarrow> ctx_err w ctx = None \<and> requests c = NoSender) \<and>
   (ctx_err w ctx = None \<longrightarrow> requests c = Sending cc \<longrightarrow>
      GetConnection w ctx c = Some (Some cc, None)) \<and>
   (ctx_err w ctx = None \<longrightarrow> requests c = Closed \<longrightarrow>
      GetConnection w ctx c = Some (None, Some ErrShutdown)) \<and>
   (ctx_err w ctx = Some e \<longrightarrow> requests c = NoSender \<longrightarrow>
      GetConnection w ctx c = Some (None, Some (ContextErr e)))"
  by (cases "requests c"; cases "ctx_err w ctx")
     (auto simp: GetConnection_def select_both split: if_splits)

theorem GetConnection_outcomes_witness:
  "GetConnection w_dial_ok 1 (conn_a\<lparr>requests := Sending 7\<rparr>) = Some (Some 7, None) \<and>
   GetConnection w_dial_ok 1 (conn_a\<lparr>requests := Closed\<rparr>) = Some (None, Some ErrShutdown) \<and>
   GetConnection w_cancelled 1 conn_a = Some (None, Some (ContextErr Canceled)) \<and>
   GetConnection w_dial_ok 1 conn_a = None"
proof -
  have a: "ctx_err w_dial_ok 1 = None" and a': "ctx_err w_cancelled 1 = Some Canceled"
    by (simp_all add: w_dial_ok_def w_cancelled_def)
  have b: "requests conn_a = NoSender" by (simp add: conn_a_def)
  have 1: "GetConnection w_dial_ok 1 (conn_a\<lparr>requests := Sending 7\<rparr>) = Some (Some 7, None)"
    using GetConnection_outcomes[of w_dial_ok 1 "conn_a\<lparr>requests := Sending 7\<rparr>"
        "(None, None)" 7 Canceled] a
    by simp
  have 2: "GetConnection w_dial_ok 1 (conn_a\<lparr>requests := Closed\<rparr>) =
      Some (None, Some ErrShutdown)"
    using GetConnection_outcomes[of w_dial_ok 1 "conn_a\<lparr>requests := Closed\<rparr>"
        "(None, None)" 7 Canceled] a
    by simp
  have 3: "GetConnection w_cancelled 1 conn_a = Some (None, Some (ContextErr Canceled))"
    using GetConnection_outcomes[of w_cancelled 1 conn_a "(None, None)" 7 Canceled] a' b
    by simp
  have 4: "GetConnection w_dial_ok 1 conn_a = None"
    using GetConnection_outcomes[of w_dial_ok 1 conn_a "(None, None)" 7 Canceled] a b
    by simp
  from 1 2 3 4 show ?thesis by simp
qed

subsection \<open>The connectivity state watcher\<close>

lemma watch_loop_true:
  "watch_loop v (map WaitTrue sts) =
     v\<lparr>state := last (state v # sts),
       waited_from := waited_from v @ butlast (state v # sts),
       sets := sets v @ map float64 sts\<rparr>"
  by (induction sts arbitrary: v) auto

lemma watch_loop_false:
  "watch_loop v (map WaitTrue sts @ WaitFalse # rest) =
     v\<lparr>state := last (state v # sts),
       waited_from := waited_from v @ state v # sts,
       sets := sets v @ map float64 sts, returned := True\<rparr>"
  by (induction sts arbitrary: v) auto

lemma watch_loop_returned:
  "returned (watch_loop v as) \<longleftrightarrow> returned v \<or> WaitFalse \<in> set as"
  by (induction v as rule: watch_loop.induct) auto

text \<open>
  Claim C9. The watcher writes the number of the handle's state to the gauge: once at its
  start and then once for each state transition it observes, in order, each time the
  number of the state \<^verbatim>\<open>GetState\<close> returns. It is still running (blocked in the wait)
  while every wait has returned true, and it has returned exactly when a wait has returned
  false, writing nothing after that.
\<close>

theorem watchConnectionState_mirrors:
  "sets (watchConnectionState st0 (map WaitTrue sts)) = map float64 (st0 # sts) \<and>
   \<not> returned (watchConnectionState st0 (map WaitTrue sts)) \<and>
   sets (watchConnectionState st0 (map WaitTrue sts @ WaitFalse # rest)) =
     map float64 (st0 # sts) \<and>
   returned (watchConnectionState st0 (map WaitTrue sts @ WaitFalse # rest)) \<and>
   returned (watchConnectionState st0 as) = (WaitFalse \<in> set as)"
  by (simp add: watchConnectionState_def watch_loop_true watch_loop_false watch_loop_returned)

theorem watchConnectionState_mirrors_witness:
  "sets (watchConnectionState Idle
      [WaitTrue Connecting, WaitTrue Ready, WaitTrue TransientFailure, WaitTrue Ready,
       WaitFalse, WaitTrue Shutdown]) = [0, 1, 2, 3, 2] \<and>
   returned (watchConnectionState Idle
      [WaitTrue Connecting, WaitTrue Ready, WaitTrue TransientFailure, WaitTrue Ready,
       WaitFalse, WaitTrue Shutdown]) \<and>
   \<not> returned (watchConnectionState Idle [WaitTrue Connecting, WaitTrue Ready])"
  using watchConnectionState_mirrors[of Idle "[Connecting, Ready, TransientFailure, Ready]"
      "[WaitTrue Shutdown]"]
    watchConnectionState_mirrors[of Idle "[Connecting, Ready]"]
  by simp

subsection \<open>Steps of the two loops\<close>

lemma loop_step_Serve:
  "pc s = Serve cc \<Longrightarrow>
   loop_step w s =
     (if Done w (loop_ctx s) \<and> (\<not> receiver w \<or> even (pick w)) then loop_return s else s)"
  by (simp add: loop_step_def select_both)

lemma loop_step_Retry:
  "pc s = Retry \<Longrightarrow>
   loop_step w s =
     (if Done w (loop_ctx s) \<and> (\<not> timer_fired w \<or> even (pick w)) then loop_return s
      else if timer_fired w then dial w (s\<lparr>attempt := attempt s + 1\<rparr>)
      else s)"
  by (simp add: loop_step_def select_both)

lemma loop_step_Entry:
  "pc s = Entry \<Longrightarrow>
   loop_step w s =
     dial w (s\<lparr>metric_grpc_conns := WithLabelValues (metric_grpc_conns s),
               metric_grpc_conns_err := WithLabelValues (metric_grpc_conns_err s)\<rparr>)"
  by (simp add: loop_step_def)

lemma loop_step_idle:
  "pc s = NotStarted \<or> pc s = Exited \<Longrightarrow> loop_step w s = s"
  by (auto simp: loop_step_def)

lemma loop_step_conn_go_Serve:
  "pc s = Serve cc \<Longrightarrow>
   loop_step_conn_go w s =
     (if (dial_ctx_cancelled s \<or> Done w (loop_ctx s)) \<and> (\<not> receiver w \<or> even (pick w))
      then loop_return_conn_go s else s)"
  by (simp add: loop_step_conn_go_def select_both)

lemma loop_step_conn_go_Retry:
  "pc s = Retry \<Longrightarrow>
   loop_step_conn_go w s =
     (if Done w (loop_ctx s) \<and> (\<not> timer_fired w \<or> even (pick w)) then loop_return_conn_go s
      else if timer_fired w then dial_conn_go w (s\<lparr>attempt := attempt s + 1\<rparr>)
      else s)"
  by (simp add: loop_step_conn_go_def select_both)

lemma loop_step_conn_go_Entry:
  "pc s = Entry \<Longrightarrow>
   loop_step_conn_go w s =
     dial_conn_go w
       (s\<lparr>metric_grpc_is_connected := WithLabelValues (metric_grpc_is_connected s),
          metric_grpc_conns := WithLabelValues (metric_grpc_conns s),
          metric_grpc_conns_err := WithLabelValues (metric_grpc_conns_err s)\<rparr>)"
  by (simp add: loop_step_conn_go_def)

lemma loop_step_conn_go_idle:
  "pc s = NotStarted \<or> pc s = Exited \<Longrightarrow> loop_step_conn_go w s = s"
  by (auto simp: loop_step_conn_go_def)

text \<open>No step of a loop touches \<open>once\<close>, \<open>loops\<close> or \<open>loop_ctx\<close>.\<close>

lemma dial_frame:
  "once (conn (dial w s)) = once (conn s) \<and> loops (dial w s) = loops s \<and>
   loop_ctx (dial w s) = loop_ctx s"
  by (simp add: dial_def Let_def split: sum.splits)

lemma loop_step_frame:
  "once (conn (loop_step w s)) = once (conn s) \<and> loops (loop_step w s) = loops s \<and>
   loop_ctx (loop_step w s) = loop_ctx s"
  by (cases "pc s")
     (simp_all add: loop_step_Serve loop_step_Retry loop_step_Entry loop_step_idle
        dial_frame loop_return_def)

lemma dial_conn_go_frame:
  "once (conn (dial_conn_go w s)) = once (conn s) \<and> loops (dial_conn_go w s) = loops s \<and>
   loop_ctx (dial_conn_go w s) = loop_ctx s"
  by (simp add: dial_conn_go_def Let_def split: sum.splits)

lemma loop_step_conn_go_frame:
  "once (conn (loop_step_conn_go w s)) = once (conn s) \<and>
   loops (loop_step_conn_go w s) = loops s \<and>
   loop_ctx (loop_step_conn_go w s) = loop_ctx s"
  by (cases "pc s")
     (simp_all add: loop_step_conn_go_Serve loop_step_conn_go_Retry loop_step_conn_go_Entry
        loop_step_conn_go_idle dial_conn_go_frame loop_return_conn_go_def)

lemma run_Nil [simp]: "run [] s = s" by (simp add: run_def)
lemma run_Cons [simp]: "run (ev # evs) s = run evs (sys_step ev s)" by (simp add: run_def)
lemma run_append: "run (evs @ evs') s = run evs' (run evs s)" by (simp add: run_def)

lemma sys_step_once_mono: "once (conn s) \<Longrightarrow> once (conn (sys_step ev s))"
  by (cases ev) (simp_all add: Start_def loop_step_frame)

lemma run_once_mono: "once (conn s) \<Longrightarrow> once (conn (run evs s))"
  by (induction evs arbitrary: s) (simp_all add: sys_step_once_mono)

lemma Start_sets_once: "once (conn (Start ctx s))"
  by (simp add: Start_def)

lemma run_once_after_Start: "CallStart ctx \<in> set evs \<Longrightarrow> once (conn (run evs s))"
proof (induction evs arbitrary: s)
  case Nil then show ?case by simp
next
  case (Cons ev evs)
  show ?case
  proof (cases "ev = CallStart ctx")
    case True
    then show ?thesis by (simp add: run_once_mono Start_sets_once)
  next
    case False
    with Cons show ?thesis by simp
  qed
qed

lemma sys_step_loops:
  "loops s = (if once (conn s) then 1 else 0) \<Longrightarrow>
   loops (sys_step ev s) = (if once (conn (sys_step ev s)) then 1 else 0)"
  by (cases ev) (simp_all add: Start_def loop_step_frame)

lemma run_loops:
  "loops s = (if once (conn s) then 1 else 0) \<Longrightarrow>
   loops (run evs s) = (if once (conn (run evs s)) then 1 else 0)"
  by (induction evs arbitrary: s) (simp_all add: sys_step_loops)

lemma run_no_Start_once:
  "\<forall>ctx. CallStart ctx \<notin> set evs \<Longrightarrow> once (conn (run evs s)) = once (conn s)"
proof (induction evs arbitrary: s)
  case Nil then show ?case by simp
next
  case (Cons ev evs)
  then show ?case by (cases ev) (auto simp: loop_step_frame)
qed

lemma loop_conn_go_frame:
  "loop_conn_go ws s = Some y \<Longrightarrow>
   pc y = Exited \<and> once (conn y) = once (conn s) \<and> loops y = loops s"
proof (induct rule: loop_conn_go.raw_induct[rotated 1, consumes 1, case_names step])
  case (step loop ws s y)
  show ?case
  proof (cases "pc s = Exited")
    case True
    with step(2) show ?thesis by simp
  next
    case False
    with step(2) have "loop (\<lambda>n. ws (Suc n)) (loop_step_conn_go (ws 0) s) = Some y" by simp
    from step(1)[OF this] show ?thesis by (simp add: loop_step_conn_go_frame)
  qed
qed

lemma dial_conn_go_fail_pc: "isl (dial_result w) \<Longrightarrow> pc (dial_conn_go w s) = Retry"
  by (cases "dial_result w") (simp_all add: dial_conn_go_def Let_def)

lemma loop_conn_go_never:
  assumes "\<forall>n. isl (dial_result (ws n)) \<and> \<not> Done (ws n) (loop_ctx s)"
    and "pc s = Entry \<or> pc s = Retry"
  shows "loop_conn_go ws s = None"
proof (rule ccontr)
  assume "loop_conn_go ws s \<noteq> None"
  then obtain y where y: "loop_conn_go ws s = Some y" by auto
  have "loop_conn_go ws s = Some y \<Longrightarrow>
      \<not> ((\<forall>n. isl (dial_result (ws n)) \<and> \<not> Done (ws n) (loop_ctx s)) \<and>
         (pc s = Entry \<or> pc s = Retry))"
  proof (induct rule: loop_conn_go.raw_induct[rotated 1, consumes 1, case_names step])
    case (step loop ws s y)
    show ?case
    proof
      assume a: "(\<forall>n. isl (dial_result (ws n)) \<and> \<not> Done (ws n) (loop_ctx s)) \<and>
         (pc s = Entry \<or> pc s = Retry)"
      then have ne: "pc s \<noteq> Exited" by auto
      let ?s' = "loop_step_conn_go (ws 0) s"
      from step(2) ne have l: "loop (\<lambda>n. ws (Suc n)) ?s' = Some y" by simp
      from a have f: "isl (dial_result (ws 0))" and nd: "\<not> Done (ws 0) (loop_ctx s)" by auto
      have pc': "pc ?s' = Entry \<or> pc ?s' = Retry"
      proof (cases "pc s = Entry")
        case True
        then show ?thesis by (simp add: loop_step_conn_go_Entry dial_conn_go_fail_pc f)
      next
        case False
        with a have "pc s = Retry" by simp
        then show ?thesis using nd by (simp add: loop_step_conn_go_Retry dial_conn_go_fail_pc f)
      qed
      have "loop_ctx ?s' = loop_ctx s" by (simp add: loop_step_conn_go_frame)
      with a have "\<forall>n. isl (dial_result (ws (Suc n))) \<and> \<not> Done (ws (Suc n)) (loop_ctx ?s')"
        by simp
      with step(1)[OF l] pc' show False by blast
    qed
  qed
  with y assms show False by blast
qed

subsection \<open>Start\<close>

lemma run_before_Start:
  "pc s = NotStarted \<Longrightarrow> \<forall>ctx. CallStart ctx \<notin> set pre \<Longrightarrow> run pre s = s"
proof (induction pre)
  case Nil
  then show ?case by simp
next
  case (Cons ev pre)
  then show ?case by (cases ev) (auto simp: loop_step_idle)
qed

lemma run_started:
  "once (conn s) \<Longrightarrow> run evs s = fold loop_step (sched_worlds evs) s"
proof (induction evs arbitrary: s)
  case Nil
  then show ?case by simp
next
  case (Cons ev evs)
  show ?case
  proof (cases ev)
    case (CallStart x)
    with Cons show ?thesis by (simp add: Start_def)
  next
    case (Sched w)
    from Cons.prems have "once (conn (loop_step w s))" by (simp add: loop_step_frame)
    from Cons.IH[OF this] Sched show ?thesis by simp
  qed
qed

lemma Starts_conn_go_started:
  "once (conn s) \<Longrightarrow> Starts_conn_go cs s = Some s"
proof (induction cs)
  case Nil
  then show ?case by simp
next
  case (Cons a cs)
  then show ?case by (cases a) (simp add: Start_conn_go_def)
qed

lemma loop_inv_conn_go_step:
  assumes "loop_inv_conn_go s"
  shows "loop_inv_conn_go (loop_step_conn_go w s)"
proof (cases "pc s")
  case NotStarted
  with assms show ?thesis by (simp add: loop_inv_conn_go_def)
next
  case Entry
  with assms show ?thesis
    by (cases "dial_result w"; cases "metric_grpc_conns s")
       (simp_all add: loop_step_conn_go_Entry loop_inv_conn_go_def dial_conn_go_def Let_def
          WithLabelValues_def Inc_def)
next
  case Retry
  with assms show ?thesis
    by (cases "dial_result w"; cases "metric_grpc_conns s")
       (simp_all add: loop_step_conn_go_Retry loop_inv_conn_go_def dial_conn_go_def Let_def
          loop_return_conn_go_def WithLabelValues_def Inc_def)
next
  case (Serve cc)
  with assms show ?thesis
    by (simp add: loop_step_conn_go_Serve loop_inv_conn_go_def loop_return_conn_go_def)
next
  case Exited
  with assms show ?thesis by (simp add: loop_step_conn_go_idle)
qed

lemma loop_conn_go_inv:
  "loop_conn_go ws s = Some y \<Longrightarrow> loop_inv_conn_go s \<longrightarrow> loop_inv_conn_go y"
proof (induct rule: loop_conn_go.raw_induct[rotated 1, consumes 1, case_names step])
  case (step loop ws s y)
  show ?case
  proof (cases "pc s = Exited")
    case True
    with step(2) show ?thesis by simp
  next
    case False
    with step(2) have "loop (\<lambda>n. ws (Suc n)) (loop_step_conn_go (ws 0) s) = Some y" by simp
    from step(1)[OF this] show ?thesis by (simp add: loop_inv_conn_go_step)
  qed
qed

lemma loop_conn_go_from_entry:
  assumes "loop_conn_go ws s = Some y" and "pc s = Entry" and "metric_grpc_conns s = None"
  shows "pc y = Exited \<and> requests (conn y) = Closed \<and>
     (\<exists>n. metric_grpc_conns y = Some n \<and> 1 \<le> n)"
proof -
  from assms(2,3) have "loop_inv_conn_go s" by (simp add: loop_inv_conn_go_def)
  with loop_conn_go_inv[OF assms(1)] have i: "loop_inv_conn_go y" by simp
  from loop_conn_go_frame[OF assms(1)] have x: "pc y = Exited" by simp
  with i show ?thesis by (auto simp: loop_inv_conn_go_def split: option.splits)
qed

text \<open>
  Claim C5. However many times \<open>Start\<close> is called on a supervisor, once or more, the
  reconnect loop is executed exactly once, and every call after the first leaves the
  state as it is. For part\_000: a history in which \<open>Start\<close> is called at least once, at
  any points between the steps of the loop's goroutine, ends in the state of one
  execution of the loop, begun at its entry with the context of the first call and run
  through the steps scheduled after that call; nothing runs before the first call, and a
  later call changes nothing. For conn.go: calls made one after the other give what the
  one run of the loop to its return gives, with the context and the environment of the
  first call (and no result when that run never returns); a first call that has returned
  has counted a dial and closed \<^verbatim>\<open>requests\<close>, and every later call returns the state
  unchanged. In both the number of calls of the loop is one.
\<close>

theorem Start_runs_loop_once:
  "(\<not> once c \<longrightarrow> (\<forall>x. CallStart x \<notin> set pre) \<longrightarrow>
      run (pre @ CallStart ctx # post) (init_sys c) =
        fold loop_step (sched_worlds post)
          ((init_sys c)\<lparr>conn := c\<lparr>once := True\<rparr>, loop_ctx := Some ctx, pc := Entry,
             loops := 1\<rparr>)) \<and>
   (\<not> once c \<longrightarrow>
      loops (run evs (init_sys c)) = (if \<exists>ctx. CallStart ctx \<in> set evs then 1 else 0)) \<and>
   (CallStart ctx \<in> set evs \<longrightarrow> Start ctx' (run evs s) = run evs s) \<and>
   (\<not> once c' \<longrightarrow>
      Starts_conn_go ((ctx, ws) # cs) (init_sys c') =
        (case loop_conn_go ws ((init_sys c')\<lparr>loop_ctx := Some ctx, pc := Entry, loops := 1\<rparr>) of
           None \<Rightarrow> None
         | Some y \<Rightarrow> Some (y\<lparr>conn := (conn y)\<lparr>once := True\<rparr>\<rparr>))) \<and>
   (\<not> once c' \<longrightarrow> Start_conn_go ctx ws (init_sys c') = Some s1 \<longrightarrow>
      loops s1 = 1 \<and> pc s1 = Exited \<and> requests (conn s1) = Closed \<and>
      (\<exists>n. metric_grpc_conns s1 = Some n \<and> 1 \<le> n) \<and>
      Start_conn_go ctx' ws' s1 = Some s1)"
proof -
  have 0: "run (pre @ CallStart ctx # post) (init_sys c) =
        fold loop_step (sched_worlds post)
          ((init_sys c)\<lparr>conn := c\<lparr>once := True\<rparr>, loop_ctx := Some ctx, pc := Entry,
             loops := 1\<rparr>)"
    if nc: "\<not> once c" and np: "\<forall>x. CallStart x \<notin> set pre"
  proof -
    let ?e = "(init_sys c)\<lparr>conn := c\<lparr>once := True\<rparr>, loop_ctx := Some ctx, pc := Entry,
        loops := 1\<rparr>"
    have "run pre (init_sys c) = init_sys c"
      using np by (intro run_before_Start) (simp_all add: init_sys_def)
    moreover have "Start ctx (init_sys c) = ?e" using nc by (simp add: Start_def init_sys_def)
    moreover have "run post ?e = fold loop_step (sched_worlds post) ?e"
      by (rule run_started) simp
    ultimately show ?thesis by (simp add: run_append)
  qed
  have 1: "loops (run evs (init_sys c)) = (if \<exists>ctx. CallStart ctx \<in> set evs then 1 else 0)"
    if nc: "\<not> once c"
  proof -
    from nc have i: "loops (init_sys c) = (if once (conn (init_sys c)) then 1 else 0)"
      by (simp add: init_sys_def)
    show ?thesis
    proof (cases "\<exists>ctx. CallStart ctx \<in> set evs")
      case True
      then obtain x where "CallStart x \<in> set evs" by blast
      then have "once (conn (run evs (init_sys c)))" by (rule run_once_after_Start)
      with run_loops[OF i, of evs] True show ?thesis by simp
    next
      case False
      then have "once (conn (run evs (init_sys c))) = once (conn (init_sys c))"
        by (intro run_no_Start_once) simp
      with nc run_loops[OF i, of evs] False show ?thesis by (simp add: init_sys_def)
    qed
  qed
  have 2: "Start ctx' (run evs s) = run evs s" if "CallStart ctx \<in> set evs"
  proof -
    from that have "once (conn (run evs s))" by (rule run_once_after_Start)
    then show ?thesis by (simp add: Start_def)
  qed
  have 3: "Starts_conn_go ((ctx, ws) # cs) (init_sys c') =
        (case loop_conn_go ws ((init_sys c')\<lparr>loop_ctx := Some ctx, pc := Entry, loops := 1\<rparr>) of
           None \<Rightarrow> None
         | Some y \<Rightarrow> Some (y\<lparr>conn := (conn y)\<lparr>once := True\<rparr>\<rparr>))"
    if nc: "\<not> once c'"
  proof (cases "loop_conn_go ws ((init_sys c')\<lparr>loop_ctx := Some ctx, pc := Entry, loops := 1\<rparr>)")
    case None
    with nc show ?thesis by (simp add: Start_conn_go_def init_sys_def)
  next
    case (Some y)
    have "Starts_conn_go cs (y\<lparr>conn := (conn y)\<lparr>once := True\<rparr>\<rparr>) =
        Some (y\<lparr>conn := (conn y)\<lparr>once := True\<rparr>\<rparr>)"
      by (rule Starts_conn_go_started) simp
    with nc Some show ?thesis by (simp add: Start_conn_go_def init_sys_def)
  qed
  have 4: "loops s1 = 1 \<and> pc s1 = Exited \<and> requests (conn s1) = Closed \<and>
      (\<exists>n. metric_grpc_conns s1 = Some n \<and> 1 \<le> n) \<and>
      Start_conn_go ctx' ws' s1 = Some s1"
    if nc: "\<not> once c'" and st: "Start_conn_go ctx ws (init_sys c') = Some s1"
  proof -
    from nc st obtain y where
      y: "loop_conn_go ws ((init_sys c')\<lparr>loop_ctx := Some ctx, pc := Entry,
            loops := loops (init_sys c') + 1\<rparr>) = Some y"
      and s1: "s1 = y\<lparr>conn := (conn y)\<lparr>once := True\<rparr>\<rparr>"
      by (auto simp: Start_conn_go_def init_sys_def split: option.splits)
    from loop_conn_go_frame[OF y] have "loops y = 1" by (simp add: init_sys_def)
    moreover from loop_conn_go_from_entry[OF y]
    have "pc y = Exited \<and> requests (conn y) = Closed \<and>
        (\<exists>n. metric_grpc_conns y = Some n \<and> 1 \<le> n)" by (simp add: init_sys_def)
    ultimately show ?thesis using s1 by (simp add: Start_conn_go_def)
  qed
  from 0 1 2 3 4 show ?thesis by blast
qed

theorem Start_runs_loop_once_witness:
  "pc (run ([Sched w_dial_ok] @ CallStart 0 #
       [Sched w_dial_fail, CallStart 0, CallStart 1, Sched w_dial_ok]) (init_sys conn_a)) =
     Serve 7 \<and>
   loop_ctx (run ([Sched w_dial_ok] @ CallStart 0 #
       [Sched w_dial_fail, CallStart 0, CallStart 1, Sched w_dial_ok]) (init_sys conn_a)) =
     Some 0 \<and>
   metric_grpc_conns (run ([Sched w_dial_ok] @ CallStart 0 #
       [Sched w_dial_fail, CallStart 0, CallStart 1, Sched w_dial_ok]) (init_sys conn_a)) =
     Some 2 \<and>
   loops (run ([Sched w_dial_ok] @ CallStart 0 #
       [Sched w_dial_fail, CallStart 0, CallStart 1, Sched w_dial_ok]) (init_sys conn_a)) = 1 \<and>
   Start 1 (run ([Sched w_dial_ok] @ CallStart 0 #
       [Sched w_dial_fail, CallStart 0, CallStart 1, Sched w_dial_ok]) (init_sys conn_a)) =
     run ([Sched w_dial_ok] @ CallStart 0 #
       [Sched w_dial_fail, CallStart 0, CallStart 1, Sched w_dial_ok]) (init_sys conn_a) \<and>
   (\<exists>s1. Starts_conn_go [(0, \<lambda>_. w_cancelled), (1, \<lambda>_. w_dial_ok)] (init_sys conn_go_a) =
        Some s1 \<and>
      pc s1 = Exited \<and> requests (conn s1) = Closed \<and> metric_grpc_conns s1 = Some 1 \<and>
      loops s1 = 1 \<and> Start_conn_go 1 (\<lambda>_. w_dial_ok) s1 = Some s1)"
proof -
  let ?pre = "[Sched w_dial_ok]"
  let ?post = "[Sched w_dial_fail, CallStart 0, CallStart 1, Sched w_dial_ok]"
  let ?H = "?pre @ CallStart 0 # ?post"
  let ?E = "(init_sys conn_a)\<lparr>conn := conn_a\<lparr>once := True\<rparr>, loop_ctx := Some 0, pc := Entry,
      loops := 1\<rparr>"
  let ?E' = "(init_sys conn_go_a)\<lparr>loop_ctx := Some 0, pc := Entry, loops := 1\<rparr>"
  have nc: "\<not> once conn_a" "\<not> once conn_go_a" by (simp_all add: conn_a_def conn_go_a_def)
  have np: "\<forall>x. CallStart x \<notin> set ?pre" by simp
  have e: "CallStart 0 \<in> set ?H" by simp
  have L: "\<exists>y. loop_conn_go (\<lambda>_. w_cancelled) ?E' = Some y \<and> metric_grpc_conns y = Some 1"
    by (simp add: init_sys_def conn_go_a_def loop_conn_go.simps
        loop_step_conn_go_Entry loop_step_conn_go_Retry dial_conn_go_def w_cancelled_def
        Done_def loop_return_conn_go_def WithLabelValues_def Inc_def)
  then obtain y where y: "loop_conn_go (\<lambda>_. w_cancelled) ?E' = Some y"
    and my: "metric_grpc_conns y = Some 1" by blast
  let ?s1 = "y\<lparr>conn := (conn y)\<lparr>once := True\<rparr>\<rparr>"
  note c2 = conjunct2
  note T = Start_runs_loop_once[where c = conn_a and pre = ?pre and ctx = 0 and post = ?post
      and evs = ?H and ctx' = 1 and s = "init_sys conn_a" and c' = conn_go_a
      and ws = "\<lambda>_. w_cancelled" and cs = "[(1, \<lambda>_. w_dial_ok)]" and ?s1.0 = ?s1
      and ws' = "\<lambda>_. w_dial_ok"]
  note U = Start_runs_loop_once[where c = conn_a and pre = ?pre and ctx = 0 and post = ?post
      and evs = ?H and ctx' = 1 and s = "init_sys conn_a" and c' = conn_go_a
      and ws = "\<lambda>_. w_cancelled" and cs = "[]" and ?s1.0 = ?s1
      and ws' = "\<lambda>_. w_dial_ok"]
  from T[THEN conjunct1] nc(1) np
  have r: "run ?H (init_sys conn_a) = fold loop_step (sched_worlds ?post) ?E" by blast
  have f: "pc (fold loop_step (sched_worlds ?post) ?E) = Serve 7"
    "loop_ctx (fold loop_step (sched_worlds ?post) ?E) = Some 0"
    "metric_grpc_conns (fold loop_step (sched_worlds ?post) ?E) = Some 2"
    by (simp_all add: init_sys_def conn_a_def loop_step_Entry loop_step_Retry dial_def
        w_dial_fail_def w_dial_ok_def Done_def WithLabelValues_def Inc_def)
  have a1: "pc (run ?H (init_sys conn_a)) = Serve 7"
    and a2: "loop_ctx (run ?H (init_sys conn_a)) = Some 0"
    and a3: "metric_grpc_conns (run ?H (init_sys conn_a)) = Some 2"
    by (simp_all only: r f)
  have ex: "\<exists>ctx. CallStart ctx \<in> set ?H" using e by blast
  from T[THEN c2, THEN conjunct1] nc(1)
  have "loops (run ?H (init_sys conn_a)) = (if \<exists>ctx. CallStart ctx \<in> set ?H then 1 else 0)"
    by blast
  with ex have a4: "loops (run ?H (init_sys conn_a)) = 1" by (simp only: if_True)
  from T[THEN c2, THEN c2, THEN conjunct1] e
  have a5: "Start 1 (run ?H (init_sys conn_a)) = run ?H (init_sys conn_a)" by blast
  from T[THEN c2, THEN c2, THEN c2, THEN conjunct1] nc(2)
  have "Starts_conn_go [(0, \<lambda>_. w_cancelled), (1, \<lambda>_. w_dial_ok)] (init_sys conn_go_a) =
      (case loop_conn_go (\<lambda>_. w_cancelled) ?E' of None \<Rightarrow> None
       | Some y \<Rightarrow> Some (y\<lparr>conn := (conn y)\<lparr>once := True\<rparr>\<rparr>))" by blast
  then have b1: "Starts_conn_go [(0, \<lambda>_. w_cancelled), (1, \<lambda>_. w_dial_ok)]
      (init_sys conn_go_a) = Some ?s1"
    by (simp only: y option.case)
  from U[THEN c2, THEN c2, THEN c2, THEN conjunct1] nc(2)
  have "Starts_conn_go [(0, \<lambda>_. w_cancelled)] (init_sys conn_go_a) =
      (case loop_conn_go (\<lambda>_. w_cancelled) ?E' of None \<Rightarrow> None
       | Some y \<Rightarrow> Some (y\<lparr>conn := (conn y)\<lparr>once := True\<rparr>\<rparr>))" by blast
  then have "Starts_conn_go [(0, \<lambda>_. w_cancelled)] (init_sys conn_go_a) = Some ?s1"
    by (simp only: y option.case)
  then have st: "Start_conn_go 0 (\<lambda>_. w_cancelled) (init_sys conn_go_a) = Some ?s1"
    by (cases "Start_conn_go 0 (\<lambda>_. w_cancelled) (init_sys conn_go_a)") simp_all
  from T[THEN c2, THEN c2, THEN c2, THEN c2] nc(2) st
  have b2: "loops ?s1 = 1 \<and> pc ?s1 = Exited \<and> requests (conn ?s1) = Closed \<and>
      (\<exists>n. metric_grpc_conns ?s1 = Some n \<and> 1 \<le> n) \<and>
      Start_conn_go 1 (\<lambda>_. w_dial_ok) ?s1 = Some ?s1" by blast
  have b3: "metric_grpc_conns ?s1 = Some 1" using my by simp
  from a1 a2 a3 a4 a5 b1 b2 b3 show ?thesis by blast
qed

lemma dial_fail_pc: "isl (dial_result w) \<Longrightarrow> pc (dial w s) = Retry"
  by (cases "dial_result w") (simp_all add: dial_def Let_def)

lemma loop_step_all_fail:
  assumes "isl (dial_result w)" and "\<not> Done w (loop_ctx s)" and "pc s = Entry \<or> pc s = Retry"
  shows "pc (loop_step w s) = Entry \<or> pc (loop_step w s) = Retry"
proof (cases "pc s = Entry")
  case True
  then show ?thesis by (simp add: loop_step_Entry dial_fail_pc assms(1))
next
  case False
  with assms(3) have "pc s = Retry" by simp
  then show ?thesis using assms(2) by (simp add: loop_step_Retry dial_fail_pc assms(1))
qed

lemma run_Sched_loop_ctx: "loop_ctx (run (map Sched ws) s) = loop_ctx s"
  by (induction ws arbitrary: s) (simp_all add: loop_step_frame)

lemma run_all_fail:
  "\<forall>w \<in> set ws. isl (dial_result w) \<and> \<not> Done w (loop_ctx s) \<Longrightarrow>
   pc s = Entry \<or> pc s = Retry \<Longrightarrow>
   pc (run (map Sched ws) s) = Entry \<or> pc (run (map Sched ws) s) = Retry"
proof (induction ws arbitrary: s)
  case Nil
  then show ?case by simp
next
  case (Cons w ws)
  have a: "pc (loop_step w s) = Entry \<or> pc (loop_step w s) = Retry"
    using Cons.prems by (intro loop_step_all_fail) auto
  have b: "\<forall>v \<in> set ws. isl (dial_result v) \<and> \<not> Done v (loop_ctx (loop_step w s))"
    using Cons.prems(1) by (simp add: loop_step_frame)
  from Cons.IH[OF b a] show ?case by simp
qed

text \<open>
  Claim C6 says that every call of \<open>Start\<close> returns at once, also when every dial fails
  and the context is never cancelled. The \<open>Start\<close> of conn.go calls the loop itself, and
  in that environment the call never returns.
\<close>

theorem Start_conn_go_blocks:
  "Start_conn_go 0 (\<lambda>_. w_dial_fail) (init_sys conn_go_a) = None"
proof -
  have "loop_conn_go (\<lambda>_. w_dial_fail)
      ((init_sys conn_go_a)\<lparr>loop_ctx := Some 0, pc := Entry,
         loops := loops (init_sys conn_go_a) + 1\<rparr>) = None"
    by (rule loop_conn_go_never) (simp_all add: w_dial_fail_def Done_def)
  then show ?thesis by (simp add: Start_conn_go_def init_sys_def conn_go_a_def)
qed

text \<open>
  Claim C6, amended. In part\_000 a call of \<open>Start\<close> returns before any dial is attempted:
  it touches neither the counters nor \<^verbatim>\<open>requests\<close>, and the first call leaves the loop's
  goroutine at its entry; this is so whatever the dials will answer, and with every dial
  failing and the context never cancelled the goroutine then goes on without returning.
  In conn.go the first call of \<open>Start\<close> returns only when the loop has returned, and does
  not return when every dial fails and the context is never cancelled.
\<close>

theorem Start_returns_before_dialing:
  "metric_grpc_conns (Start ctx s) = metric_grpc_conns s \<and>
   metric_grpc_conns_err (Start ctx s) = metric_grpc_conns_err s \<and>
   requests (conn (Start ctx s)) = requests (conn s) \<and>
   watchers (Start ctx s) = watchers s \<and>
   (\<not> once (conn s) \<longrightarrow> pc (Start ctx s) = Entry) \<and>
   (\<not> once c \<longrightarrow> (\<forall>w \<in> set ws. isl (dial_result w) \<and> ctx_err w ctx = None) \<longrightarrow>
      pc (run (CallStart ctx # map Sched ws) (init_sys c)) \<noteq> Exited) \<and>
   (\<not> once c' \<longrightarrow> (\<forall>n. isl (dial_result (wz n)) \<and> ctx_err (wz n) ctx = None) \<longrightarrow>
      Start_conn_go ctx wz (init_sys c') = None) \<and>
   (\<not> once (conn s') \<longrightarrow> Start_conn_go ctx wz s' = Some y \<longrightarrow> pc y = Exited)"
proof -
  have 1: "pc (run (CallStart ctx # map Sched ws) (init_sys c)) \<noteq> Exited"
    if nc: "\<not> once c" and f: "\<forall>w \<in> set ws. isl (dial_result w) \<and> ctx_err w ctx = None"
  proof -
    let ?s = "Start ctx (init_sys c)"
    from nc have s: "pc ?s = Entry" "loop_ctx ?s = Some ctx" by (simp_all add: Start_def init_sys_def)
    from f s have "\<forall>w \<in> set ws. isl (dial_result w) \<and> \<not> Done w (loop_ctx ?s)"
      by (simp add: Done_def)
    from run_all_fail[OF this] s show ?thesis by auto
  qed
  have 2: "Start_conn_go ctx wz (init_sys c') = None"
    if nc: "\<not> once c'" and f: "\<forall>n. isl (dial_result (wz n)) \<and> ctx_err (wz n) ctx = None"
  proof -
    have "loop_conn_go wz ((init_sys c')\<lparr>loop_ctx := Some ctx, pc := Entry,
         loops := loops (init_sys c') + 1\<rparr>) = None"
      using f by (intro loop_conn_go_never) (simp_all add: Done_def)
    with nc show ?thesis by (simp add: Start_conn_go_def init_sys_def)
  qed
  have 3: "pc y = Exited" if "\<not> once (conn s')" and "Start_conn_go ctx wz s' = Some y"
    using that loop_conn_go_frame
    by (auto simp: Start_conn_go_def split: option.splits)
  have 0: "metric_grpc_conns (Start ctx s) = metric_grpc_conns s \<and>
   metric_grpc_conns_err (Start ctx s) = metric_grpc_conns_err s \<and>
   requests (conn (Start ctx s)) = requests (conn s) \<and>
   watchers (Start ctx s) = watchers s \<and>
   (\<not> once (conn s) \<longrightarrow> pc (Start ctx s) = Entry)"
    by (simp add: Start_def)
  from 0 1 2 3 show ?thesis by blast
qed

theorem Start_returns_before_dialing_witness:
  "pc (Start 0 (init_sys conn_a)) = Entry \<and>
   metric_grpc_conns (Start 0 (init_sys conn_a)) = None \<and>
   pc (run (CallStart 0 # map Sched [w_dial_fail, w_dial_fail, w_dial_fail]) (init_sys conn_a))
     \<noteq> Exited \<and>
   Start_conn_go 0 (\<lambda>_. w_dial_fail) (init_sys conn_go_a) = None \<and>
   (\<exists>y. Start_conn_go 0 (\<lambda>_. w_cancelled) (init_sys conn_go_a) = Some y \<and> pc y = Exited)"
proof -
  have a: "\<not> once conn_a" "\<not> once conn_go_a" "\<not> once (conn (init_sys conn_a))"
    "\<not> once (conn (init_sys conn_go_a))"
    by (simp_all add: conn_a_def conn_go_a_def init_sys_def)
  have f: "\<forall>w \<in> set [w_dial_fail, w_dial_fail, w_dial_fail]. isl (dial_result w) \<and> ctx_err w 0 = None"
    by (simp add: w_dial_fail_def)
  have g: "\<forall>n. isl (dial_result ((\<lambda>_. w_dial_fail) n)) \<and> ctx_err ((\<lambda>_. w_dial_fail) n) 0 = None"
    by (simp add: w_dial_fail_def)
  have b: "\<exists>y. Start_conn_go 0 (\<lambda>_. w_cancelled) (init_sys conn_go_a) = Some y"
    by (simp add: Start_conn_go_def init_sys_def conn_go_a_def loop_conn_go.simps
        loop_step_conn_go_Entry loop_step_conn_go_Retry dial_conn_go_def w_cancelled_def
        Done_def loop_return_conn_go_def)
  then obtain y where y: "Start_conn_go 0 (\<lambda>_. w_cancelled) (init_sys conn_go_a) = Some y" ..
  note T = Start_returns_before_dialing[where s = "init_sys conn_a" and ctx = 0 and c = conn_a
      and ws = "[w_dial_fail, w_dial_fail, w_dial_fail]" and c' = conn_go_a
      and wz = "\<lambda>_. w_dial_fail"]
  note U = Start_returns_before_dialing[where s = "init_sys conn_a" and ctx = 0 and c = conn_a
      and ws = "[]" and c' = conn_go_a and wz = "\<lambda>_. w_cancelled" and s' = "init_sys conn_go_a"
      and y = y]
  note c2 = conjunct2
  from T[THEN conjunct1] have 2: "metric_grpc_conns (Start 0 (init_sys conn_a)) = None"
    by (simp add: init_sys_def)
  from T[THEN c2, THEN c2, THEN c2, THEN c2, THEN conjunct1] a(3)
  have 1: "pc (Start 0 (init_sys conn_a)) = Entry" by blast
  from T[THEN c2, THEN c2, THEN c2, THEN c2, THEN c2, THEN conjunct1] a(1) f
  have 3: "pc (run (CallStart 0 # map Sched [w_dial_fail, w_dial_fail, w_dial_fail])
      (init_sys conn_a)) \<noteq> Exited" by blast
  from T[THEN c2, THEN c2, THEN c2, THEN c2, THEN c2, THEN c2, THEN conjunct1] a(2) g
  have 4: "Start_conn_go 0 (\<lambda>_. w_dial_fail) (init_sys conn_go_a) = None" by blast
  from U[THEN c2, THEN c2, THEN c2, THEN c2, THEN c2, THEN c2, THEN c2] a(4) y
  have 5: "pc y = Exited" by blast
  from 1 2 3 4 5 y show ?thesis by blast
qed

subsection \<open>Dial failures and the retry wait\<close>

lemma steps_conn_go_Nil [simp]: "steps_conn_go [] s = s"
  by (simp add: steps_conn_go_def)

lemma steps_conn_go_Cons [simp]:
  "steps_conn_go (w # ws) s = steps_conn_go ws (loop_step_conn_go w s)"
  by (simp add: steps_conn_go_def)

lemma loop_conn_go_steps:
  "loop_conn_go ws s = loop_conn_go (\<lambda>n. ws (n + k)) (steps_conn_go (map ws [0..<k]) s)"
proof (induction k arbitrary: ws s)
  case 0
  then show ?case by simp
next
  case (Suc k)
  have m: "map ws [0..<Suc k] = ws 0 # map (\<lambda>n. ws (Suc n)) [0..<k]"
    by (simp add: upt_conv_Cons map_Suc_upt[symmetric] del: upt_Suc)
  show ?case
  proof (cases "pc s = Exited")
    case True
    have "steps_conn_go vs s = s" for vs
      by (induction vs) (simp_all add: loop_step_conn_go_idle True)
    then show ?thesis using True by (simp add: loop_conn_go.simps[of _ s])
  next
    case False
    then have "loop_conn_go ws s =
        loop_conn_go (\<lambda>n. ws (Suc n)) (loop_step_conn_go (ws 0) s)"
      by (subst loop_conn_go.simps) simp
    also have "\<dots> = loop_conn_go (\<lambda>n. ws (Suc (n + k)))
        (steps_conn_go (map (\<lambda>n. ws (Suc n)) [0..<k]) (loop_step_conn_go (ws 0) s))"
      by (rule Suc.IH)
    finally show ?thesis by (simp add: m del: upt_Suc)
  qed
qed

lemma Inc_Some [simp]: "Inc (Some v) = Some (v + 1)"
  by (simp add: Inc_def WithLabelValues_def)

lemma Inc_None [simp]: "Inc None = Some 1"
  by (simp add: Inc_def WithLabelValues_def)

lemma Inc_WithLabelValues [simp]: "Inc (WithLabelValues m) = Inc m"
  by (cases m) (simp_all add: Inc_def WithLabelValues_def)

lemma dial_fail:
  "isl (dial_result w) \<Longrightarrow>
   dial w s =
     s\<lparr>metric_grpc_conns := Inc (metric_grpc_conns s),
       metric_grpc_conns_err := Inc (metric_grpc_conns_err s),
       next_calls := next_calls s @ [attempt s], pc := Retry\<rparr>"
  by (cases "dial_result w") (simp_all add: dial_def Let_def)

lemma dial_ok:
  "dial_result w = Inr cc \<Longrightarrow>
   dial w s =
     s\<lparr>metric_grpc_conns := Inc (metric_grpc_conns s),
       deferred := cc # deferred s, watchers := watchers s @ [cc],
       conn := (conn s)\<lparr>requests := Sending cc\<rparr>, pc := Serve cc\<rparr>"
  by (simp add: dial_def Let_def)

lemma dial_conn_go_fail:
  "isl (dial_result w) \<Longrightarrow>
   dial_conn_go w s =
     s\<lparr>metric_grpc_conns := Inc (metric_grpc_conns s), dial_ctx_cancelled := True,
       metric_grpc_conns_err := Inc (metric_grpc_conns_err s),
       next_calls := next_calls s @ [attempt s], pc := Retry\<rparr>"
  by (cases "dial_result w") (simp_all add: dial_conn_go_def Let_def)

lemma dial_conn_go_ok:
  "dial_result w = Inr cc \<Longrightarrow>
   dial_conn_go w s =
     s\<lparr>metric_grpc_conns := Inc (metric_grpc_conns s), dial_ctx_cancelled := True,
       attempt := 0, metric_grpc_is_connected := Some 1,
       conn := (conn s)\<lparr>requests := Sending cc\<rparr>, pc := Serve cc\<rparr>"
  by (simp add: dial_conn_go_def Let_def Set_gauge_def)

lemma retry_fail_run:
  assumes "\<forall>w \<in> set ws. isl (dial_result w) \<and> timer_fired w \<and> \<not> Done w (loop_ctx s)"
    and "pc s = Retry" and "metric_grpc_conns_err s = Some (int (Suc k))"
    and "next_calls s = map of_nat [0..<Suc k]" and "attempt s = of_nat k"
  shows "pc (run (map Sched ws) s) = Retry \<and>
     metric_grpc_conns_err (run (map Sched ws) s) = Some (int (Suc k + length ws)) \<and>
     next_calls (run (map Sched ws) s) = map of_nat [0..<Suc k + length ws] \<and>
     attempt (run (map Sched ws) s) = of_nat (k + length ws)"
  using assms
proof (induction ws arbitrary: s k)
  case Nil
  then show ?case by simp
next
  case (Cons w ws)
  let ?s = "loop_step w s"
  from Cons.prems have w: "isl (dial_result w)" "timer_fired w" "\<not> Done w (loop_ctx s)"
    by simp_all
  have st: "?s = dial w (s\<lparr>attempt := attempt s + 1\<rparr>)"
    using Cons.prems(2) w by (simp add: loop_step_Retry)
  have a: "\<forall>v \<in> set ws. isl (dial_result v) \<and> timer_fired v \<and> \<not> Done v (loop_ctx ?s)"
    using Cons.prems(1) by (simp add: loop_step_frame)
  have b: "pc ?s = Retry" by (simp add: st dial_fail w)
  have c: "metric_grpc_conns_err ?s = Some (int (Suc (Suc k)))"
    using Cons.prems(3) by (simp add: st dial_fail w)
  have e: "attempt ?s = of_nat (Suc k)"
    using Cons.prems(5) by (simp add: st dial_fail w)
  have d: "next_calls ?s = map of_nat [0..<Suc (Suc k)]"
    using Cons.prems(4,5) by (simp add: st dial_fail w)
  from Cons.IH[OF a b c d e] show ?case by simp
qed

lemma retry_fail_run_conn_go:
  assumes "\<forall>w \<in> set ws. isl (dial_result w) \<and> timer_fired w \<and> \<not> Done w (loop_ctx s)"
    and "pc s = Retry" and "metric_grpc_conns_err s = Some (int (Suc k))"
    and "next_calls s = map of_nat [0..<Suc k]" and "attempt s = of_nat k"
  shows "pc (steps_conn_go ws s) = Retry \<and>
     metric_grpc_conns_err (steps_conn_go ws s) = Some (int (Suc k + length ws)) \<and>
     next_calls (steps_conn_go ws s) = map of_nat [0..<Suc k + length ws] \<and>
     attempt (steps_conn_go ws s) = of_nat (k + length ws)"
  using assms
proof (induction ws arbitrary: s k)
  case Nil
  then show ?case by simp
next
  case (Cons w ws)
  let ?s = "loop_step_conn_go w s"
  from Cons.prems have w: "isl (dial_result w)" "timer_fired w" "\<not> Done w (loop_ctx s)"
    by simp_all
  have st: "?s = dial_conn_go w (s\<lparr>attempt := attempt s + 1\<rparr>)"
    using Cons.prems(2) w by (simp add: loop_step_conn_go_Retry)
  have a: "\<forall>v \<in> set ws. isl (dial_result v) \<and> timer_fired v \<and> \<not> Done v (loop_ctx ?s)"
    using Cons.prems(1) by (simp add: loop_step_conn_go_frame)
  have b: "pc ?s = Retry" by (simp add: st dial_conn_go_fail w)
  have c: "metric_grpc_conns_err ?s = Some (int (Suc (Suc k)))"
    using Cons.prems(3) by (simp add: st dial_conn_go_fail w)
  have e: "attempt ?s = of_nat (Suc k)"
    using Cons.prems(5) by (simp add: st dial_conn_go_fail w)
  have d: "next_calls ?s = map of_nat [0..<Suc (Suc k)]"
    using Cons.prems(4,5) by (simp add: st dial_conn_go_fail w)
  from Cons.IH[OF a b c d e] show ?case by simp
qed

lemma sint_attempt:
  "k \<le> 2 ^ 63 \<Longrightarrow> map sint (map of_nat [0..<k] :: 64 word list) = map int [0..<k]"
proof -
  assume k: "k \<le> 2 ^ 63"
  have "sint (of_nat n :: 64 word) = int n" if "n < k" for n
  proof -
    from that k have "int n < 2 ^ 63" by simp
    then show ?thesis by (simp add: signed_of_nat signed_take_bit_int_eq_self)
  qed
  then show ?thesis by simp
qed

lemma steps_conn_go_loop_ctx: "loop_ctx (steps_conn_go ws s) = loop_ctx s"
  by (induction ws arbitrary: s) (simp_all add: loop_step_conn_go_frame)

lemma upt_3: "[0..<length [a, b, c]] = [0, 1, 2]"
  by (simp add: upt_rec)

text \<open>
  Claim C7 says that a successful dial resets \<open>attempt\<close> to 0 and sets the is-connected
  gauge to 1. The loop of part\_000 does neither: after one failed dial and one successful
  dial \<open>attempt\<close> is 1 and the gauge has never been written.
\<close>

theorem loop_part_000_keeps_attempt:
  "pc (run [CallStart 0, Sched w_dial_fail, Sched w_dial_ok] (init_sys conn_a)) = Serve 7 \<and>
   attempt (run [CallStart 0, Sched w_dial_fail, Sched w_dial_ok] (init_sys conn_a)) = 1 \<and>
   metric_grpc_is_connected
     (run [CallStart 0, Sched w_dial_fail, Sched w_dial_ok] (init_sys conn_a)) = None"
  by (simp add: Start_def init_sys_def conn_a_def loop_step_Entry loop_step_Retry
      dial_def w_dial_fail_def w_dial_ok_def Done_def)

text \<open>
  Claim C7, amended. In both revisions each dial failure increments the attempts-error
  counter and waits \<^verbatim>\<open>RetryConnect.Next(attempt)\<close>, and \<open>attempt\<close> is incremented when
  that wait is over: after \<open>k\<close> failures in a row from the start of the loop the counter
  is \<open>k\<close>, the calls of \<open>Next\<close> have had the arguments \<open>0, ..., k - 1\<close> (as 64-bit
  integers, which are these numbers up to \<open>2 ^ 63\<close> failures), and \<open>attempt\<close> is \<open>k - 1\<close>
  during the \<open>k\<close>-th wait. On a successful dial conn.go resets \<open>attempt\<close> to 0 and sets
  the is-connected gauge to 1; part\_000 leaves \<open>attempt\<close> as the failures left it, does
  not write the is-connected gauge, and starts the state watcher for the handle.
\<close>

theorem loop_retry_counting:
  "(\<not> once c \<longrightarrow>
    (\<forall>w \<in> set (w0 # ws). isl (dial_result w) \<and> timer_fired w \<and> ctx_err w ctx = None) \<longrightarrow>
      pc (run (CallStart ctx # map Sched (w0 # ws)) (init_sys c)) = Retry \<and>
      metric_grpc_conns_err (run (CallStart ctx # map Sched (w0 # ws)) (init_sys c)) =
        Some (int (length (w0 # ws))) \<and>
      next_calls (run (CallStart ctx # map Sched (w0 # ws)) (init_sys c)) =
        map of_nat [0..<length (w0 # ws)] \<and>
      attempt (run (CallStart ctx # map Sched (w0 # ws)) (init_sys c)) = of_nat (length ws)) \<and>
   (pc s = Entry \<longrightarrow> loop_ctx s = Some ctx \<longrightarrow> attempt s = 0 \<longrightarrow> next_calls s = [] \<longrightarrow>
    metric_grpc_conns_err s = None \<longrightarrow>
    (\<forall>w \<in> set (w0 # ws). isl (dial_result w) \<and> timer_fired w \<and> ctx_err w ctx = None) \<longrightarrow>
      pc (steps_conn_go (w0 # ws) s) = Retry \<and>
      metric_grpc_conns_err (steps_conn_go (w0 # ws) s) = Some (int (length (w0 # ws))) \<and>
      next_calls (steps_conn_go (w0 # ws) s) = map of_nat [0..<length (w0 # ws)] \<and>
      attempt (steps_conn_go (w0 # ws) s) = of_nat (length ws)) \<and>
   (length (w0 # ws) \<le> 2 ^ 63 \<longrightarrow>
      map sint (map of_nat [0..<length (w0 # ws)] :: 64 word list) =
        map int [0..<length (w0 # ws)]) \<and>
   (pc s' = Entry \<or> pc s' = Retry \<and> timer_fired w \<and> \<not> Done w (loop_ctx s') \<longrightarrow>
    dial_result w = Inr cc \<longrightarrow>
      pc (loop_step_conn_go w s') = Serve cc \<and>
      attempt (loop_step_conn_go w s') = 0 \<and>
      metric_grpc_is_connected (loop_step_conn_go w s') = Some 1) \<and>
   (pc t = Entry \<or> pc t = Retry \<and> timer_fired w \<and> \<not> Done w (loop_ctx t) \<longrightarrow>
    dial_result w = Inr cc \<longrightarrow>
      pc (loop_step w t) = Serve cc \<and>
      attempt (loop_step w t) = (if pc t = Entry then attempt t else attempt t + 1) \<and>
      metric_grpc_is_connected (loop_step w t) = metric_grpc_is_connected t \<and>
      watchers (loop_step w t) = watchers t @ [cc])"
proof -
  let ?F = "\<forall>w \<in> set (w0 # ws). isl (dial_result w) \<and> timer_fired w \<and> ctx_err w ctx = None"
  have 1: "pc (run (CallStart ctx # map Sched (w0 # ws)) (init_sys c)) = Retry \<and>
      metric_grpc_conns_err (run (CallStart ctx # map Sched (w0 # ws)) (init_sys c)) =
        Some (int (length (w0 # ws))) \<and>
      next_calls (run (CallStart ctx # map Sched (w0 # ws)) (init_sys c)) =
        map of_nat [0..<length (w0 # ws)] \<and>
      attempt (run (CallStart ctx # map Sched (w0 # ws)) (init_sys c)) = of_nat (length ws)"
    if nc: "\<not> once c" and f: ?F
  proof -
    let ?e = "Start ctx (init_sys c)"
    let ?r = "loop_step w0 ?e"
    from nc have e: "pc ?e = Entry" "loop_ctx ?e = Some ctx" "attempt ?e = 0" "next_calls ?e = []"
      "metric_grpc_conns_err ?e = None"
      by (simp_all add: Start_def init_sys_def)
    from f have w0: "isl (dial_result w0)" by simp
    have r: "pc ?r = Retry" "metric_grpc_conns_err ?r = Some (int (Suc 0))"
      "next_calls ?r = map of_nat [0..<Suc 0]" "attempt ?r = of_nat 0"
      using e by (simp_all add: loop_step_Entry dial_fail w0 WithLabelValues_def)
    have "loop_ctx ?r = Some ctx" using e by (simp add: loop_step_frame)
    with f have a: "\<forall>w \<in> set ws. isl (dial_result w) \<and> timer_fired w \<and> \<not> Done w (loop_ctx ?r)"
      by (simp add: Done_def)
    from retry_fail_run[OF a r] show ?thesis by simp
  qed
  have 2: "pc (steps_conn_go (w0 # ws) s) = Retry \<and>
      metric_grpc_conns_err (steps_conn_go (w0 # ws) s) = Some (int (length (w0 # ws))) \<and>
      next_calls (steps_conn_go (w0 # ws) s) = map of_nat [0..<length (w0 # ws)] \<and>
      attempt (steps_conn_go (w0 # ws) s) = of_nat (length ws)"
    if e: "pc s = Entry" "loop_ctx s = Some ctx" "attempt s = 0" "next_calls s = []"
      "metric_grpc_conns_err s = None" and f: ?F
  proof -
    let ?r = "loop_step_conn_go w0 s"
    from f have w0: "isl (dial_result w0)" by simp
    have r: "pc ?r = Retry" "metric_grpc_conns_err ?r = Some (int (Suc 0))"
      "next_calls ?r = map of_nat [0..<Suc 0]" "attempt ?r = of_nat 0"
      using e by (simp_all add: loop_step_conn_go_Entry dial_conn_go_fail w0 WithLabelValues_def)
    have "loop_ctx ?r = Some ctx" using e by (simp add: loop_step_conn_go_frame)
    with f have a: "\<forall>w \<in> set ws. isl (dial_result w) \<and> timer_fired w \<and> \<not> Done w (loop_ctx ?r)"
      by (simp add: Done_def)
    from retry_fail_run_conn_go[OF a r] show ?thesis by simp
  qed
  have 3: "map sint (map of_nat [0..<length (w0 # ws)] :: 64 word list) =
        map int [0..<length (w0 # ws)]" if "length (w0 # ws) \<le> 2 ^ 63"
    using that by (rule sint_attempt)
  have 4: "pc (loop_step_conn_go w s') = Serve cc \<and>
      attempt (loop_step_conn_go w s') = 0 \<and>
      metric_grpc_is_connected (loop_step_conn_go w s') = Some 1"
    if "pc s' = Entry \<or> pc s' = Retry \<and> timer_fired w \<and> \<not> Done w (loop_ctx s')"
      and "dial_result w = Inr cc"
    using that by (auto simp: loop_step_conn_go_Entry loop_step_conn_go_Retry dial_conn_go_ok)
  have 5: "pc (loop_step w t) = Serve cc \<and>
      attempt (loop_step w t) = (if pc t = Entry then attempt t else attempt t + 1) \<and>
      metric_grpc_is_connected (loop_step w t) = metric_grpc_is_connected t \<and>
      watchers (loop_step w t) = watchers t @ [cc]"
    if "pc t = Entry \<or> pc t = Retry \<and> timer_fired w \<and> \<not> Done w (loop_ctx t)"
      and "dial_result w = Inr cc"
    using that by (auto simp: loop_step_Entry loop_step_Retry dial_ok)
  from 1 2 3 4 5 show ?thesis by blast
qed

theorem loop_retry_counting_witness:
  "next_calls (run (CallStart 0 # map Sched [w_dial_fail, w_dial_fail, w_dial_fail])
      (init_sys conn_a)) = [0, 1, 2] \<and>
   metric_grpc_conns_err (run (CallStart 0 # map Sched [w_dial_fail, w_dial_fail, w_dial_fail])
      (init_sys conn_a)) = Some 3 \<and>
   next_calls (steps_conn_go [w_dial_fail, w_dial_fail, w_dial_fail]
      ((init_sys conn_go_a)\<lparr>loop_ctx := Some 0, pc := Entry\<rparr>)) = [0, 1, 2] \<and>
   attempt (steps_conn_go [w_dial_fail, w_dial_fail, w_dial_fail]
      ((init_sys conn_go_a)\<lparr>loop_ctx := Some 0, pc := Entry\<rparr>)) = 2 \<and>
   attempt (loop_step_conn_go w_dial_ok (steps_conn_go [w_dial_fail, w_dial_fail, w_dial_fail]
      ((init_sys conn_go_a)\<lparr>loop_ctx := Some 0, pc := Entry\<rparr>))) = 0 \<and>
   metric_grpc_is_connected (loop_step_conn_go w_dial_ok
      (steps_conn_go [w_dial_fail, w_dial_fail, w_dial_fail]
        ((init_sys conn_go_a)\<lparr>loop_ctx := Some 0, pc := Entry\<rparr>))) = Some 1 \<and>
   attempt (loop_step w_dial_ok (run (CallStart 0 # map Sched [w_dial_fail, w_dial_fail,
      w_dial_fail]) (init_sys conn_a))) = 3"
proof -
  let ?ws = "[w_dial_fail, w_dial_fail]"
  let ?e = "(init_sys conn_go_a)\<lparr>loop_ctx := Some 0, pc := Entry\<rparr>"
  let ?s' = "steps_conn_go (w_dial_fail # ?ws) ?e"
  let ?t = "run (CallStart 0 # map Sched (w_dial_fail # ?ws)) (init_sys conn_a)"
  note c2 = conjunct2
  note T = loop_retry_counting[where c = conn_a and ?w0.0 = w_dial_fail and ws = ?ws
      and ctx = 0 and s = ?e and s' = ?s' and w = w_dial_ok and cc = 7 and t = ?t]
  have nc: "\<not> once conn_a" by (simp add: conn_a_def)
  have f: "\<forall>w \<in> set (w_dial_fail # ?ws). isl (dial_result w) \<and> timer_fired w \<and> ctx_err w 0 = None"
    by (simp add: w_dial_fail_def)
  have e: "pc ?e = Entry" "loop_ctx ?e = Some 0" "attempt ?e = 0" "next_calls ?e = []"
    "metric_grpc_conns_err ?e = None"
    by (simp_all add: init_sys_def)
  have ok: "dial_result w_dial_ok = Inr 7" "timer_fired w_dial_ok" "ctx_err w_dial_ok 0 = None"
    by (simp_all add: w_dial_ok_def)
  from T[THEN conjunct1] nc f
  have 1: "pc ?t = Retry \<and> metric_grpc_conns_err ?t = Some (int (length (w_dial_fail # ?ws))) \<and>
      next_calls ?t = map of_nat [0..<length (w_dial_fail # ?ws)] \<and>
      attempt ?t = of_nat (length ?ws)" by blast
  from T[THEN c2, THEN conjunct1] e f
  have 2: "pc ?s' = Retry \<and>
      metric_grpc_conns_err ?s' = Some (int (length (w_dial_fail # ?ws))) \<and>
      next_calls ?s' = map of_nat [0..<length (w_dial_fail # ?ws)] \<and>
      attempt ?s' = of_nat (length ?ws)" by blast
  have lc1: "loop_ctx ?s' = Some 0"
    by (simp only: steps_conn_go_loop_ctx) (simp add: init_sys_def)
  have lc2: "loop_ctx ?t = Some 0"
    by (simp only: run_Cons sys_step.simps run_Sched_loop_ctx)
       (simp add: Start_def init_sys_def nc)
  note lc = lc1 lc2
  have nd: "\<not> Done w_dial_ok (loop_ctx ?s')" "\<not> Done w_dial_ok (loop_ctx ?t)"
    by (simp_all only: lc Done_def option.case ok) simp_all
  from T[THEN c2, THEN c2, THEN c2, THEN conjunct1] 2 ok nd(1)
  have 4: "pc (loop_step_conn_go w_dial_ok ?s') = Serve 7 \<and>
      attempt (loop_step_conn_go w_dial_ok ?s') = 0 \<and>
      metric_grpc_is_connected (loop_step_conn_go w_dial_ok ?s') = Some 1" by blast
  from T[THEN c2, THEN c2, THEN c2, THEN c2] 1 ok nd(2)
  have 5: "attempt (loop_step w_dial_ok ?t) = (if pc ?t = Entry then attempt ?t else attempt ?t + 1)"
    by blast
  have m: "map of_nat [0..<length (w_dial_fail # ?ws)] = [0, 1, 2 :: 64 word]"
    by (simp only: upt_3) simp
  have l: "int (length (w_dial_fail # ?ws)) = 3" "of_nat (length ?ws) = (2 :: 64 word)"
    by simp_all
  from 1 have "next_calls ?t = map of_nat [0..<length (w_dial_fail # ?ws)]" by blast
  then have a1: "next_calls ?t = [0, 1, 2]" by (simp only: m)
  from 1 have "metric_grpc_conns_err ?t = Some (int (length (w_dial_fail # ?ws)))" by blast
  then have a2: "metric_grpc_conns_err ?t = Some 3" by (simp only: l)
  from 2 have "next_calls ?s' = map of_nat [0..<length (w_dial_fail # ?ws)]" by blast
  then have a3: "next_calls ?s' = [0, 1, 2]" by (simp only: m)
  from 2 have "attempt ?s' = of_nat (length ?ws)" by blast
  then have a4: "attempt ?s' = 2" by (simp only: l)
  from 4 have a5: "attempt (loop_step_conn_go w_dial_ok ?s') = 0"
    and a6: "metric_grpc_is_connected (loop_step_conn_go w_dial_ok ?s') = Some 1" by blast+
  from 1 have p: "pc ?t = Retry" and q: "attempt ?t = of_nat (length ?ws)" by blast+
  have "attempt (loop_step w_dial_ok ?t) = (if Retry = Entry then (2 :: 64 word) else 2 + 1)"
    by (simp only: 5 p q l)
  also have "\<dots> = 3" by simp
  finally have a7: "attempt (loop_step w_dial_ok ?t) = 3" .
  from a1 a2 a3 a4 a5 a6 a7 show ?thesis by blast
qed

subsection \<open>The serve phase\<close>

text \<open>
  In part\_000 the serve phase is left only through the case of the outer context: a step
  in which that context is not done leaves the loop where it is, offering the handle.
\<close>

lemma loop_serves_until_cancelled:
  assumes "pc s = Serve cc"
  shows "(\<forall>w \<in> set ws. \<not> Done w (loop_ctx s)) \<longrightarrow> run (map Sched ws) s = s"
    and "pc (loop_step w s) = Exited \<longrightarrow> Done w (loop_ctx s)"
proof -
  show "(\<forall>w \<in> set ws. \<not> Done w (loop_ctx s)) \<longrightarrow> run (map Sched ws) s = s"
    by (induction ws) (simp_all add: loop_step_Serve[OF assms])
  show "pc (loop_step w s) = Exited \<longrightarrow> Done w (loop_ctx s)"
    using assms by (auto simp: loop_step_Serve[OF assms] split: if_splits)
qed

text \<open>
  In conn.go the dial context has been cancelled when the serve phase begins, so a step
  with no caller waiting ends the loop, whatever the outer context.
\<close>

lemma loop_conn_go_serve_exits:
  "pc s = Serve cc \<Longrightarrow> dial_ctx_cancelled s \<Longrightarrow> \<not> receiver w \<Longrightarrow>
   loop_step_conn_go w s = loop_return_conn_go s"
  by (simp add: loop_step_conn_go_Serve)

lemma dial_conn_go_cancels: "dial_ctx_cancelled (dial_conn_go w s)"
  by (cases "dial_result w") (simp_all add: dial_conn_go_def Let_def)

text \<open>
  Claim C1 says that in the serve phase the loop ends only when the outer context given
  to \<open>Start\<close> is done, and goes on offering the handle as long as it is not. The loop of
  part\_000 does so (\<open>loop_serves_until_cancelled\<close>). The loop of conn.go does not: with an
  outer context that is never done, a dial that succeeds at once and no caller waiting,
  it offers the handle and at its next step returns and closes \<^verbatim>\<open>requests\<close>.
\<close>

theorem loop_conn_go_stops_serving:
  "ctx_err w_dial_ok 0 = None \<and> \<not> receiver w_dial_ok \<and>
   pc (steps_conn_go [w_dial_ok] ((init_sys conn_go_a)\<lparr>loop_ctx := Some 0, pc := Entry\<rparr>)) =
     Serve 7 \<and>
   requests (conn (steps_conn_go [w_dial_ok]
     ((init_sys conn_go_a)\<lparr>loop_ctx := Some 0, pc := Entry\<rparr>))) = Sending 7 \<and>
   pc (steps_conn_go [w_dial_ok, w_dial_ok]
     ((init_sys conn_go_a)\<lparr>loop_ctx := Some 0, pc := Entry\<rparr>)) = Exited \<and>
   requests (conn (steps_conn_go [w_dial_ok, w_dial_ok]
     ((init_sys conn_go_a)\<lparr>loop_ctx := Some 0, pc := Entry\<rparr>))) = Closed \<and>
   (\<exists>y. Start_conn_go 0 (\<lambda>_. w_dial_ok) (init_sys conn_go_a) = Some y \<and> pc y = Exited \<and>
      requests (conn y) = Closed)"
proof -
  let ?e = "(init_sys conn_go_a)\<lparr>loop_ctx := Some 0, pc := Entry\<rparr>"
  have w: "ctx_err w_dial_ok 0 = None" "\<not> receiver w_dial_ok" "dial_result w_dial_ok = Inr 7"
    by (simp_all add: w_dial_ok_def)
  have s1: "pc (loop_step_conn_go w_dial_ok ?e) = Serve 7"
    "requests (conn (loop_step_conn_go w_dial_ok ?e)) = Sending 7"
    "dial_ctx_cancelled (loop_step_conn_go w_dial_ok ?e)"
    by (simp_all add: loop_step_conn_go_Entry dial_conn_go_ok w)
  have s2: "loop_step_conn_go w_dial_ok (loop_step_conn_go w_dial_ok ?e) =
      loop_return_conn_go (loop_step_conn_go w_dial_ok ?e)"
    using s1 w by (intro loop_conn_go_serve_exits) simp_all
  have s3: "pc (loop_step_conn_go w_dial_ok (loop_step_conn_go w_dial_ok ?e)) = Exited"
    "requests (conn (loop_step_conn_go w_dial_ok (loop_step_conn_go w_dial_ok ?e))) = Closed"
    by (simp_all only: s2) (simp_all add: loop_return_conn_go_def)
  let ?e' = "(init_sys conn_go_a)\<lparr>loop_ctx := Some 0, pc := Entry,
      loops := loops (init_sys conn_go_a) + 1\<rparr>"
  have t1: "pc (loop_step_conn_go w_dial_ok ?e') = Serve 7"
    "dial_ctx_cancelled (loop_step_conn_go w_dial_ok ?e')"
    by (simp_all add: loop_step_conn_go_Entry dial_conn_go_ok w)
  have t2: "loop_step_conn_go w_dial_ok (loop_step_conn_go w_dial_ok ?e') =
      loop_return_conn_go (loop_step_conn_go w_dial_ok ?e')"
    using t1 w by (intro loop_conn_go_serve_exits) simp_all
  have "loop_conn_go (\<lambda>_. w_dial_ok) ?e' =
      loop_conn_go (\<lambda>n. w_dial_ok) (steps_conn_go (map (\<lambda>_. w_dial_ok) [0..<2]) ?e')"
    by (rule loop_conn_go_steps[where k = 2 and ws = "\<lambda>_. w_dial_ok"])
  also have "map (\<lambda>_. w_dial_ok) [0..<2] = [w_dial_ok, w_dial_ok]"
    by (simp add: upt_rec)
  also have "steps_conn_go [w_dial_ok, w_dial_ok] ?e' =
      loop_return_conn_go (loop_step_conn_go w_dial_ok ?e')"
    by (simp only: steps_conn_go_Cons steps_conn_go_Nil t2)
  also have "loop_conn_go (\<lambda>n. w_dial_ok) (loop_return_conn_go (loop_step_conn_go w_dial_ok ?e')) =
      Some (loop_return_conn_go (loop_step_conn_go w_dial_ok ?e'))"
    by (subst loop_conn_go.simps) (simp add: loop_return_conn_go_def)
  finally have "Start_conn_go 0 (\<lambda>_. w_dial_ok) (init_sys conn_go_a) =
      Some ((loop_return_conn_go (loop_step_conn_go w_dial_ok ?e'))
        \<lparr>conn := (conn (loop_return_conn_go (loop_step_conn_go w_dial_ok ?e')))\<lparr>once := True\<rparr>\<rparr>)"
    by (simp add: Start_conn_go_def init_sys_def conn_go_a_def)
  then have s4: "\<exists>y. Start_conn_go 0 (\<lambda>_. w_dial_ok) (init_sys conn_go_a) = Some y \<and>
      pc y = Exited \<and> requests (conn y) = Closed"
    by (simp add: loop_return_conn_go_def)
  from w s1 s3 s4 show ?thesis by (simp only: steps_conn_go_Cons steps_conn_go_Nil) blast
qed

subsection \<open>What a supervisor hands out\<close>

text \<open>A \<open>Conn\<close> that \<open>New\<close> returns has not been started and has an idle channel.\<close>

lemma New_fresh:
  "New TrimSpace nm addr opts = Inr c \<Longrightarrow> \<not> once c \<and> requests c = NoSender"
  by (auto simp: New_def split: if_splits)

lemma loop_inv_init: "\<not> once c \<Longrightarrow> requests c = NoSender \<Longrightarrow> loop_inv (init_sys c)"
  by (simp add: loop_inv_def init_sys_def)

lemma loop_inv_Start: "loop_inv s \<Longrightarrow> loop_inv (Start ctx s)"
  by (auto simp: loop_inv_def Start_def split: pc.splits)

lemma loop_inv_loop_step: "loop_inv s \<Longrightarrow> loop_inv (loop_step w s)"
proof (cases "pc s")
  case NotStarted
  then show "loop_inv s \<Longrightarrow> ?thesis" by (simp add: loop_step_idle)
next
  case Entry
  then show "loop_inv s \<Longrightarrow> ?thesis"
    by (cases "dial_result w") (simp_all add: loop_step_Entry loop_inv_def dial_def Let_def)
next
  case Retry
  then show "loop_inv s \<Longrightarrow> ?thesis"
    by (cases "dial_result w")
       (simp_all add: loop_step_Retry loop_inv_def dial_def Let_def loop_return_def)
next
  case (Serve cc)
  then show "loop_inv s \<Longrightarrow> ?thesis"
    by (simp add: loop_step_Serve loop_inv_def loop_return_def)
next
  case Exited
  then show "loop_inv s \<Longrightarrow> ?thesis" by (simp add: loop_step_idle)
qed

lemma loop_inv_sys_step: "loop_inv s \<Longrightarrow> loop_inv (sys_step ev s)"
  by (cases ev) (simp_all add: loop_inv_Start loop_inv_loop_step)

lemma loop_inv_run: "loop_inv s \<Longrightarrow> loop_inv (run evs s)"
  by (induction evs arbitrary: s) (simp_all add: loop_inv_sys_step)

lemma Exited_stays: "loop_inv s \<Longrightarrow> pc s = Exited \<Longrightarrow> run evs s = s"
proof (induction evs)
  case Nil
  then show ?case by simp
next
  case (Cons ev evs)
  then have "sys_step ev s = s"
    by (cases ev) (simp_all add: loop_step_idle Start_def loop_inv_def)
  with Cons show ?case by simp
qed

lemma loop_step_watchers:
  "cc \<in> set (watchers (loop_step w s)) \<Longrightarrow> cc \<in> set (watchers s) \<or> dial_result w = Inr cc"
  by (cases "pc s"; cases "dial_result w")
     (auto simp: loop_step_idle loop_step_Entry loop_step_Retry loop_step_Serve loop_return_def
        dial_def Let_def split: if_splits)

lemma run_watchers:
  "cc \<in> set (watchers (run evs s)) \<Longrightarrow>
   cc \<in> set (watchers s) \<or> (\<exists>w. Sched w \<in> set evs \<and> dial_result w = Inr cc)"
proof (induction evs arbitrary: s)
  case Nil
  then show ?case by simp
next
  case (Cons ev evs)
  from Cons.IH[of "sys_step ev s"] Cons.prems
  have "cc \<in> set (watchers (sys_step ev s)) \<or>
      (\<exists>w. Sched w \<in> set evs \<and> dial_result w = Inr cc)" by simp
  then show ?case
  proof
    assume a: "cc \<in> set (watchers (sys_step ev s))"
    show ?thesis
    proof (cases ev)
      case (CallStart x)
      with a show ?thesis by (simp add: Start_def split: if_splits)
    next
      case (Sched w)
      with a loop_step_watchers[of cc w s] show ?thesis by auto
    qed
  next
    assume "\<exists>w. Sched w \<in> set evs \<and> dial_result w = Inr cc"
    then show ?thesis by auto
  qed
qed

lemma GetConnection_safe:
  "GetConnection w ctx c = Some (Some cc, e) \<Longrightarrow> requests c = Sending cc"
  by (cases "requests c"; cases "ctx_err w ctx")
     (auto simp: GetConnection_def select_both split: if_splits)

text \<open>
  Claim C3 says that once the loop has exited every call of \<open>GetConnection\<close> returns
  \<open>ErrShutdown\<close>. A call whose own context is done can take the other case of its
  \<^verbatim>\<open>select\<close> and return the error of that context.
\<close>

theorem GetConnection_after_exit_ctx_error:
  "pc (run [CallStart 0, Sched w_dial_ok, Sched w_cancelled] (init_sys conn_a)) = Exited \<and>
   GetConnection w_cancelled 1
     (conn (run [CallStart 0, Sched w_dial_ok, Sched w_cancelled] (init_sys conn_a))) =
     Some (None, Some (ContextErr Canceled))"
  by (simp add: Start_def init_sys_def conn_a_def loop_step_Entry loop_step_Serve
      dial_def w_dial_ok_def w_cancelled_def Done_def loop_return_def GetConnection_def
      select_both)

text \<open>
  Claim C3, amended. A supervisor of part\_000 hands a handle to a caller of
  \<open>GetConnection\<close> only while its loop is in the serve phase, and then the handle that a
  successful dial of its history returned: none before the first successful dial and
  none after the loop has exited. Once the loop has exited, it stays exited and
  \<^verbatim>\<open>requests\<close> stays closed through every later event; every call of \<open>GetConnection\<close>
  from then on, however many, returns \<open>ErrShutdown\<close> when its own context is not done,
  and \<open>ErrShutdown\<close> or the error of its own context when that context is done.
\<close>

theorem supervisor_hands_out:
  "\<not> once c \<longrightarrow> requests c = NoSender \<longrightarrow>
   (GetConnection w ctx (conn (run evs (init_sys c))) = Some (Some cc, e) \<longrightarrow>
      pc (run evs (init_sys c)) = Serve cc \<and>
      (\<exists>w'. Sched w' \<in> set evs \<and> dial_result w' = Inr cc)) \<and>
   (pc (run evs (init_sys c)) = Exited \<longrightarrow>
      pc (run (evs @ evs') (init_sys c)) = Exited \<and>
      requests (conn (run (evs @ evs') (init_sys c))) = Closed \<and>
      (ctx_err w ctx = None \<longrightarrow>
         GetConnection w ctx (conn (run (evs @ evs') (init_sys c))) =
           Some (None, Some ErrShutdown)) \<and>
      (\<forall>r. GetConnection w ctx (conn (run (evs @ evs') (init_sys c))) = Some r \<longrightarrow>
         r = (None, Some ErrShutdown) \<or>
         (\<exists>x. r = (None, Some (ContextErr x)) \<and> ctx_err w ctx = Some x)))"
proof (intro impI)
  assume nc: "\<not> once c" and ns: "requests c = NoSender"
  let ?s = "run evs (init_sys c)"
  have inv: "loop_inv ?s" by (intro loop_inv_run loop_inv_init nc ns)
  have 1: "pc ?s = Serve cc \<and> (\<exists>w'. Sched w' \<in> set evs \<and> dial_result w' = Inr cc)"
    if g: "GetConnection w ctx (conn ?s) = Some (Some cc, e)"
  proof -
    from GetConnection_safe g have rq: "requests (conn ?s) = Sending cc" by blast
    with inv have pc: "pc ?s = Serve cc" and wt: "watchers ?s = [cc]"
      by (auto simp: loop_inv_def split: pc.splits)
    from wt have "cc \<in> set (watchers ?s)" by simp
    from run_watchers[OF this] have "\<exists>w'. Sched w' \<in> set evs \<and> dial_result w' = Inr cc"
      by (simp add: init_sys_def)
    with pc show ?thesis by simp
  qed
  have 2: "pc (run (evs @ evs') (init_sys c)) = Exited \<and>
      requests (conn (run (evs @ evs') (init_sys c))) = Closed \<and>
      (ctx_err w ctx = None \<longrightarrow>
         GetConnection w ctx (conn (run (evs @ evs') (init_sys c))) =
           Some (None, Some ErrShutdown)) \<and>
      (\<forall>r. GetConnection w ctx (conn (run (evs @ evs') (init_sys c))) = Some r \<longrightarrow>
         r = (None, Some ErrShutdown) \<or>
         (\<exists>x. r = (None, Some (ContextErr x)) \<and> ctx_err w ctx = Some x))"
    if x: "pc ?s = Exited"
  proof -
    have eq: "run (evs @ evs') (init_sys c) = ?s"
      by (simp add: run_append Exited_stays[OF inv x])
    from inv x have cl: "requests (conn ?s) = Closed" by (simp add: loop_inv_def)
    show ?thesis
      unfolding eq using x cl
      by (cases "ctx_err w ctx") (auto simp: GetConnection_def select_both)
  qed
  from 1 2 show "(GetConnection w ctx (conn ?s) = Some (Some cc, e) \<longrightarrow>
      pc ?s = Serve cc \<and> (\<exists>w'. Sched w' \<in> set evs \<and> dial_result w' = Inr cc)) \<and>
   (pc ?s = Exited \<longrightarrow>
      pc (run (evs @ evs') (init_sys c)) = Exited \<and>
      requests (conn (run (evs @ evs') (init_sys c))) = Closed \<and>
      (ctx_err w ctx = None \<longrightarrow>
         GetConnection w ctx (conn (run (evs @ evs') (init_sys c))) =
           Some (None, Some ErrShutdown)) \<and>
      (\<forall>r. GetConnection w ctx (conn (run (evs @ evs') (init_sys c))) = Some r \<longrightarrow>
         r = (None, Some ErrShutdown) \<or>
         (\<exists>x. r = (None, Some (ContextErr x)) \<and> ctx_err w ctx = Some x)))"
    by blast
qed

theorem supervisor_hands_out_witness:
  "GetConnection w_dial_ok 1 (conn (run [CallStart 0, Sched w_dial_ok] (init_sys conn_a))) =
     Some (Some 7, None) \<and>
   pc (run [CallStart 0, Sched w_dial_ok] (init_sys conn_a)) = Serve 7 \<and>
   pc (run [CallStart 0, Sched w_dial_ok, Sched w_cancelled] (init_sys conn_a)) = Exited \<and>
   requests (conn (run ([CallStart 0, Sched w_dial_ok, Sched w_cancelled] @
     [Sched w_dial_ok, CallStart 3]) (init_sys conn_a))) = Closed \<and>
   GetConnection w_dial_ok 1 (conn (run ([CallStart 0, Sched w_dial_ok, Sched w_cancelled] @
     [Sched w_dial_ok, CallStart 3]) (init_sys conn_a))) = Some (None, Some ErrShutdown)"
proof -
  let ?a = "[CallStart 0, Sched w_dial_ok]"
  let ?b = "[CallStart 0, Sched w_dial_ok, Sched w_cancelled]"
  let ?c = "[Sched w_dial_ok, CallStart 3]"
  have nc: "\<not> once conn_a" "requests conn_a = NoSender" by (simp_all add: conn_a_def)
  have g: "GetConnection w_dial_ok 1 (conn (run ?a (init_sys conn_a))) = Some (Some 7, None)"
    by (simp add: Start_def init_sys_def conn_a_def loop_step_Entry dial_def w_dial_ok_def
        GetConnection_def)
  have x: "pc (run ?b (init_sys conn_a)) = Exited"
    by (simp add: Start_def init_sys_def conn_a_def loop_step_Entry loop_step_Serve
        dial_def w_dial_ok_def w_cancelled_def Done_def loop_return_def)
  have n: "ctx_err w_dial_ok 1 = None" by (simp add: w_dial_ok_def)
  note T1 = supervisor_hands_out[where c = conn_a and evs = ?a and w = w_dial_ok and ctx = 1
      and cc = 7 and e = None, rule_format, OF nc]
  note T2 = supervisor_hands_out[where c = conn_a and evs = ?b and evs' = ?c and w = w_dial_ok
      and ctx = 1, rule_format, OF nc]
  from T1[THEN conjunct1, rule_format, OF g] have 1: "pc (run ?a (init_sys conn_a)) = Serve 7"
    by blast
  from T2[THEN conjunct2, rule_format, OF x]
  have 2: "requests (conn (run (?b @ ?c) (init_sys conn_a))) = Closed"
    and 3: "ctx_err w_dial_ok 1 = None \<longrightarrow>
      GetConnection w_dial_ok 1 (conn (run (?b @ ?c) (init_sys conn_a))) =
        Some (None, Some ErrShutdown)"
    by blast+
  from g 1 x 2 3 n show ?thesis by blast
qed

end
